theory Spec2Isabelle
  imports Main "HOL-Library.Word" "HOL-Library.Monad_Syntax" "HOL-Library.Multiset"
begin

section \<open>Data model of \<open>nvwa/tree.h\<close>\<close>

text \<open>
  A \<open>tree<_Tp, _Policy>\<close> object holds \<open>_M_value\<close> and \<open>_M_children\<close>, a
  \<open>std::vector<tree_ptr>\<close>. A \<open>tree_ptr\<close> is a smart pointer that is either null or
  refers to a node: it is an \<open>option\<close>. Every node object lives at an address of its
  own; \<open>addr\<close> records it, so that raw node pointers (which the iterators compare) and
  the release of a node have an identity that does not depend on the stored value.
  The datatype describes tree-shaped ownership: every node is held by one handle, which
  is what \<open>storage_policy::unique\<close> enforces and what a \<open>shared\<close> tree is when no handle
  is duplicated.
\<close>

datatype 'a tree = Node (addr: nat) (M_value: 'a) (M_children: "'a tree option list")

text \<open>
  Contract violations of the source (undefined behaviour of an unchecked vector access
  or of \<open>operator*\<close> on a null handle, a failed \<open>assert\<close>) are explicit results of the
  model.
\<close>

datatype error = OutOfBounds | EmptyContainer | AssertFailed | NullDereference

section \<open>Node operations (lines 105--180)\<close>

definition has_child :: "'a tree \<Rightarrow> bool" where
  "has_child t = (M_children t \<noteq> [])"

definition child_count :: "'a tree \<Rightarrow> nat" where
  "child_count t = length (M_children t)"

text \<open>
  \<open>child(unsigned index)\<close> returns \<open>_M_children[index]\<close>; the index is a 32-bit
  unsigned integer and \<open>operator[]\<close> is unchecked, so an index that is not below the
  size is the error branch.
\<close>

definition child :: "'a tree \<Rightarrow> 32 word \<Rightarrow> error + 'a tree option" where
  "child t index =
     (if unat index < length (M_children t) then Inr (M_children t ! unat index)
      else Inl OutOfBounds)"

definition push_back :: "'a tree \<Rightarrow> 'a tree option \<Rightarrow> 'a tree" where
  "push_back t ptr = Node (addr t) (M_value t) (M_children t @ [ptr])"

text \<open>
  \<open>std::vector::pop_back\<close> on an empty vector is undefined: the error branch. The same
  holds for \<open>front()\<close> and \<open>back()\<close>, here \<open>front_child\<close> and \<open>back_child\<close>.
\<close>

definition pop_back :: "'a tree \<Rightarrow> error + 'a tree" where
  "pop_back t =
     (if M_children t = [] then Inl EmptyContainer
      else Inr (Node (addr t) (M_value t) (butlast (M_children t))))"

definition front_child :: "'a tree \<Rightarrow> error + 'a tree option" where
  "front_child t = (if M_children t = [] then Inl EmptyContainer else Inr (hd (M_children t)))"

definition back_child :: "'a tree \<Rightarrow> error + 'a tree option" where
  "back_child t = (if M_children t = [] then Inl EmptyContainer else Inr (last (M_children t)))"

section \<open>The pretty-printer \<open>print_tree\<close> (lines 355--385)\<close>

text \<open>
  The output stream is the string written so far; \<open>put\<close> is the value type's
  \<open>operator<<\<close>. The box-drawing literals of the source are UTF-8, three bytes per
  character. \<open>is_last\<close> compares the address of the child slot with that of
  \<open>ptr->back()\<close>: it holds for the last slot of the vector only.
\<close>

definition newline :: string where
  "newline = [CHR 0x0A]"

definition branch_last :: string where
  "branch_last = [CHR 0xE2, CHR 0x94, CHR 0x94, CHR 0xE2, CHR 0x94, CHR 0x80, CHR 0xE2, CHR 0x94, CHR 0x80]"

definition branch_mid :: string where
  "branch_mid = [CHR 0xE2, CHR 0x94, CHR 0x9C, CHR 0xE2, CHR 0x94, CHR 0x80, CHR 0xE2, CHR 0x94, CHR 0x80]"

definition indent_last :: string where
  "indent_last = ''    ''"

definition indent_mid :: string where
  "indent_mid = [CHR 0xE2, CHR 0x94, CHR 0x82] @ ''   ''"

function print_tree :: "('a \<Rightarrow> string) \<Rightarrow> 'a tree option \<Rightarrow> string \<Rightarrow> string \<Rightarrow> string"
  and print_children :: "('a \<Rightarrow> string) \<Rightarrow> 'a tree option list \<Rightarrow> string \<Rightarrow> string \<Rightarrow> string"
where
  "print_tree put None os prefix = os @ ''(null)'' @ newline"
| "print_tree put (Some (Node a v cs)) os prefix =
     print_children put cs (os @ put v @ newline) prefix"
| "print_children put [] os prefix = os"
| "print_children put (c # cs) os prefix =
     (let is_last = (cs = []) in
      print_children put cs
        (print_tree put c
           (os @ prefix @ (if is_last then branch_last else branch_mid) @ '' '')
           (prefix @ (if is_last then indent_last else indent_mid)))
        prefix)"
  by pat_completeness auto
termination
  by (relation "measure (\<lambda>x. case x of
         Inl (_, p, _, _) \<Rightarrow> size_option size p
       | Inr (_, cs, _, _) \<Rightarrow> size_list (size_option size) cs)") auto

text \<open>The two-argument overload starts with the empty prefix.\<close>

definition print_tree_top :: "('a \<Rightarrow> string) \<Rightarrow> 'a tree option \<Rightarrow> string \<Rightarrow> string" where
  "print_tree_top put ptr os = print_tree put ptr os []"

section \<open>Depth-first iteration (lines 477--566)\<close>

text \<open>
  \<open>depth_first_iteration::iterator\<close> holds \<open>_M_current\<close>, a raw node pointer (null when
  exhausted), and \<open>_M_stack\<close>, a stack of pairs of \<open>const_iterator\<close>s into children
  vectors. The tree is not mutated during a traversal, so a pointer is the node it
  points to, and a pair \<open>(next_node, end_node)\<close> is the list of the slots from
  \<open>next_node\<close> up to \<open>end_node\<close>; the top of the stack is the head of the list.
\<close>

record 'a dfs_iterator =
  dfs_current :: "'a tree option"
  dfs_stack :: "'a tree option list list"

definition dfs_begin :: "'a tree \<Rightarrow> 'a dfs_iterator" where
  "dfs_begin root = \<lparr>dfs_current = Some root, dfs_stack = []\<rparr>"

definition dfs_end :: "'a dfs_iterator" where
  "dfs_end = \<lparr>dfs_current = None, dfs_stack = []\<rparr>"

definition dfs_empty :: "'a dfs_iterator \<Rightarrow> bool" where
  "dfs_empty it = (dfs_current it = None)"

text \<open>\<open>operator*\<close> asserts \<open>!empty()\<close>.\<close>

definition dfs_deref :: "'a dfs_iterator \<Rightarrow> error + 'a tree" where
  "dfs_deref it = (case dfs_current it of None \<Rightarrow> Inl AssertFailed | Some t \<Rightarrow> Inr t)"

text \<open>\<open>operator==\<close> compares the two \<open>_M_current\<close> pointers, that is, node addresses.\<close>

definition dfs_eq :: "'a dfs_iterator \<Rightarrow> 'a dfs_iterator \<Rightarrow> bool" where
  "dfs_eq a b = (map_option addr (dfs_current a) = map_option addr (dfs_current b))"

text \<open>
  The \<open>for (;;)\<close> loop of \<open>operator++\<close> (lines 508--525): an empty stack ends the
  traversal; an exhausted top range is popped; otherwise the slot at \<open>next_node\<close> is
  read by \<open>&**next_node\<close>, \<open>next_node\<close> advances, and the loop ends since the slot
  holds a node. \<open>**next_node\<close> applies \<open>operator*\<close> to the handle in the slot before
  \<open>_M_current\<close> is tested against null (line 519): on a null handle its precondition
  \<open>get() != nullptr\<close> is violated, the behaviour is undefined (an abort when the library
  checks its preconditions), and the test that follows is not reached in the model.
\<close>

fun dfs_loop ::
  "'a tree option list list \<Rightarrow> error + 'a tree option \<times> 'a tree option list list" where
  "dfs_loop [] = Inr (None, [])"
| "dfs_loop ([] # st) = dfs_loop st"
| "dfs_loop ((Some t # r) # st) = Inr (Some t, r # st)"
| "dfs_loop ((None # r) # st) = Inl NullDereference"

definition dfs_incr :: "'a dfs_iterator \<Rightarrow> error + 'a dfs_iterator" where
  "dfs_incr it =
     (case dfs_current it of
        None \<Rightarrow> Inl AssertFailed
      | Some t \<Rightarrow>
          (let st = (if M_children t \<noteq> [] then M_children t # dfs_stack it else dfs_stack it)
           in case dfs_loop st of
                Inl e \<Rightarrow> Inl e
              | Inr (c, st') \<Rightarrow> Inr \<lparr>dfs_current = c, dfs_stack = st'\<rparr>))"

text \<open>
  The client loop \<open>for (it = begin(); it != end(); ++it)\<close>, collecting the nodes that
  \<open>*it\<close> yields. \<open>None\<close> stands for a loop that does not end.
\<close>

partial_function (option) dfs_run ::
  "'a dfs_iterator \<Rightarrow> 'a tree list \<Rightarrow> (error + 'a tree list) option" where
  "dfs_run it acc =
     (if dfs_eq it dfs_end then Some (Inr acc)
      else case dfs_deref it of
             Inl e \<Rightarrow> Some (Inl e)
           | Inr t \<Rightarrow> (case dfs_incr it of
                         Inl e \<Rightarrow> Some (Inl e)
                       | Inr it' \<Rightarrow> dfs_run it' (acc @ [t])))"

declare dfs_run.simps [code]

text \<open>
  The specification of pre-order, in the words of the spec: a node, then the subtrees of
  its children from left to right, an absent slot contributing nothing.
\<close>

fun preorder :: "'a tree \<Rightarrow> 'a tree list"
  and preorder_slots :: "'a tree option list \<Rightarrow> 'a tree list" where
  "preorder (Node a v cs) = Node a v cs # preorder_slots cs"
| "preorder_slots [] = []"
| "preorder_slots (None # cs) = preorder_slots cs"
| "preorder_slots (Some t # cs) = preorder t @ preorder_slots cs"

definition stack_preorder :: "'a tree option list list \<Rightarrow> 'a tree list" where
  "stack_preorder st = concat (map preorder_slots st)"

text \<open>Trees, slots and stacks of ranges without a null handle.\<close>

fun all_present :: "'a tree \<Rightarrow> bool"
  and slots_present :: "'a tree option list \<Rightarrow> bool" where
  "all_present (Node a v cs) = slots_present cs"
| "slots_present [] = True"
| "slots_present (None # cs) = False"
| "slots_present (Some t # cs) = (all_present t \<and> slots_present cs)"

definition stack_present :: "'a tree option list list \<Rightarrow> bool" where
  "stack_present st = list_all slots_present st"

text \<open>The tree \<open>1(2(4, 5), 3)\<close> of the spec; the node holding \<open>n\<close> lives at address \<open>n\<close>.\<close>

definition tree_1_2_4_5_3 :: "int tree" where
  "tree_1_2_4_5_3 =
     Node 1 1 [Some (Node 2 2 [Some (Node 4 4 []), Some (Node 5 5 [])]), Some (Node 3 3 [])]"

text \<open>The tree \<open>1(absent, 3)\<close>: the first slot of the root is a null handle.\<close>

definition tree_1_null_3 :: "int tree" where
  "tree_1_null_3 = Node 1 1 [None, Some (Node 3 3 [])]"

section \<open>In-order iteration (lines 573--695)\<close>

text \<open>
  \<open>in_order_iteration::iterator\<close> holds \<open>_M_stack\<close>, a stack of tuples
  \<open>(curr, next_child, end_child)\<close>, and \<open>_M_current\<close>. \<open>curr\<close> is the node that is
  still to be yielded (or null once it has been), and \<open>(next_child, end_child)\<close> is the
  list of the slots still to be visited.
\<close>

record 'a ino_iterator =
  ino_stack :: "('a tree option \<times> 'a tree option list) list"
  ino_current :: "'a tree option"

text \<open>
  \<open>find_leftmost_child\<close> (lines 650--674) pushes a frame per node on the way down the
  left-most slots and returns the node it stops at: a node without children, or a node
  whose left-most slot is null (its frame then has a null \<open>curr\<close>).
\<close>

fun find_leftmost_child ::
  "('a tree option \<times> 'a tree option list) list \<Rightarrow> 'a tree \<Rightarrow>
   'a tree \<times> ('a tree option \<times> 'a tree option list) list" where
  "find_leftmost_child st (Node a v []) = (Node a v [], st)"
| "find_leftmost_child st (Node a v (Some l # r)) =
     find_leftmost_child ((Some (Node a v (Some l # r)), r) # st) l"
| "find_leftmost_child st (Node a v (None # r)) = (Node a v (None # r), (None, r) # st)"

definition ino_begin :: "'a tree \<Rightarrow> 'a ino_iterator" where
  "ino_begin root =
     (let (c, st) = find_leftmost_child [] root in \<lparr>ino_stack = st, ino_current = Some c\<rparr>)"

definition ino_end :: "'a ino_iterator" where
  "ino_end = \<lparr>ino_stack = [], ino_current = None\<rparr>"

definition ino_empty :: "'a ino_iterator \<Rightarrow> bool" where
  "ino_empty it = (ino_current it = None)"

definition ino_deref :: "'a ino_iterator \<Rightarrow> error + 'a tree" where
  "ino_deref it = (case ino_current it of None \<Rightarrow> Inl AssertFailed | Some t \<Rightarrow> Inr t)"

definition ino_eq :: "'a ino_iterator \<Rightarrow> 'a ino_iterator \<Rightarrow> bool" where
  "ino_eq a b = (map_option addr (ino_current a) = map_option addr (ino_current b))"

text \<open>
  The loop of \<open>operator++\<close> (lines 603--627). A top frame with a pending \<open>curr\<close> yields
  it and marks it as traversed. Otherwise the inner \<open>while\<close> advances \<open>next_child\<close>
  over null slots; at the first present one the left-most descent starts from it, on top
  of the frame; a frame without slots left is popped.
\<close>

fun ino_loop ::
  "('a tree option \<times> 'a tree option list) list \<Rightarrow>
   'a tree option \<times> ('a tree option \<times> 'a tree option list) list" where
  "ino_loop [] = (None, [])"
| "ino_loop ((Some t, r) # st) = (Some t, (None, r) # st)"
| "ino_loop ((None, []) # st) = ino_loop st"
| "ino_loop ((None, None # r) # st) = ino_loop ((None, r) # st)"
| "ino_loop ((None, Some s # r) # st) =
     (let (c, st') = find_leftmost_child ((None, r) # st) s in (Some c, st'))"

definition ino_incr :: "'a ino_iterator \<Rightarrow> error + 'a ino_iterator" where
  "ino_incr it =
     (case ino_current it of
        None \<Rightarrow> Inl AssertFailed
      | Some t \<Rightarrow>
          (let (c, st') = ino_loop (ino_stack it)
           in Inr \<lparr>ino_stack = st', ino_current = c\<rparr>))"

partial_function (option) ino_run ::
  "'a ino_iterator \<Rightarrow> 'a tree list \<Rightarrow> (error + 'a tree list) option" where
  "ino_run it acc =
     (if ino_eq it ino_end then Some (Inr acc)
      else case ino_deref it of
             Inl e \<Rightarrow> Some (Inl e)
           | Inr t \<Rightarrow> (case ino_incr it of
                         Inl e \<Rightarrow> Some (Inl e)
                       | Inr it' \<Rightarrow> ino_run it' (acc @ [t])))"

declare ino_run.simps [code]

text \<open>
  The specification of in-order, in the words of the spec: the subtree in the left-most
  slot (nothing when that slot is absent), then the node itself, then the subtrees in the
  remaining slots in order, absent slots contributing nothing.
\<close>

fun inorder :: "'a tree \<Rightarrow> 'a tree list"
  and inorder_slots :: "'a tree option list \<Rightarrow> 'a tree list" where
  "inorder (Node a v []) = [Node a v []]"
| "inorder (Node a v (None # cs)) = Node a v (None # cs) # inorder_slots cs"
| "inorder (Node a v (Some l # cs)) = inorder l @ Node a v (Some l # cs) # inorder_slots cs"
| "inorder_slots [] = []"
| "inorder_slots (None # cs) = inorder_slots cs"
| "inorder_slots (Some t # cs) = inorder t @ inorder_slots cs"

definition frame_inorder :: "'a tree option \<times> 'a tree option list \<Rightarrow> 'a tree list" where
  "frame_inorder f = (case fst f of None \<Rightarrow> [] | Some t \<Rightarrow> [t]) @ inorder_slots (snd f)"

definition stack_inorder :: "('a tree option \<times> 'a tree option list) list \<Rightarrow> 'a tree list" where
  "stack_inorder st = concat (map frame_inorder st)"

text \<open>The tree \<open>2(left=1, right=3)\<close> of the spec.\<close>

definition tree_2_1_3 :: "int tree" where
  "tree_2_1_3 = Node 2 2 [Some (Node 1 1 []), Some (Node 3 3 [])]"

section \<open>Breadth-first iteration (lines 392--470)\<close>

text \<open>
  \<open>breadth_first_iteration::iterator\<close> holds two vectors of node pointers,
  \<open>_M_this_level\<close> and \<open>_M_next_level\<close>, and \<open>_M_current\<close>, a vector iterator into
  \<open>_M_this_level\<close>. A vector iterator is a position in a heap buffer: the address of
  the buffer and an offset. The buffer of \<open>_M_this_level\<close> is part of the state, since
  \<open>operator==\<close> compares vector iterators of two objects; a vector without elements
  has no buffer (\<open>None\<close>, the null address).
\<close>

record 'a bfs_iterator =
  bfs_current :: "nat option \<times> nat"
  bfs_this_level :: "nat option \<times> 'a tree list"
  bfs_next_level :: "'a tree list"

definition vec_begin :: "nat option \<times> 'b list \<Rightarrow> nat option \<times> nat" where
  "vec_begin v = (fst v, 0)"

definition vec_end :: "nat option \<times> 'b list \<Rightarrow> nat option \<times> nat" where
  "vec_end v = (fst v, length (snd v))"

text \<open>
  \<open>iterator(pointer root)\<close> allocates the buffer \<open>buf\<close> for \<open>{root}\<close>;
  \<open>iterator() = default\<close> has value-initialised members.
\<close>

definition bfs_begin :: "nat \<Rightarrow> 'a tree \<Rightarrow> 'a bfs_iterator" where
  "bfs_begin buf root =
     \<lparr>bfs_current = vec_begin (Some buf, [root]), bfs_this_level = (Some buf, [root]),
      bfs_next_level = []\<rparr>"

definition bfs_end :: "'a bfs_iterator" where
  "bfs_end = \<lparr>bfs_current = (None, 0), bfs_this_level = (None, []), bfs_next_level = []\<rparr>"

definition bfs_empty :: "'a bfs_iterator \<Rightarrow> bool" where
  "bfs_empty it = (bfs_current it = vec_end (bfs_this_level it))"

definition bfs_eq :: "'a bfs_iterator \<Rightarrow> 'a bfs_iterator \<Rightarrow> bool" where
  "bfs_eq a b = ((bfs_empty a \<and> bfs_empty b) \<or> bfs_current a = bfs_current b)"

text \<open>
  \<open>operator*\<close> asserts \<open>!empty()\<close> and reads \<open>**_M_current\<close>; the read is defined when
  \<open>_M_current\<close> points to an element of \<open>_M_this_level\<close>.
\<close>

definition bfs_deref :: "'a bfs_iterator \<Rightarrow> error + 'a tree" where
  "bfs_deref it =
     (if bfs_empty it then Inl AssertFailed
      else if fst (bfs_current it) = fst (bfs_this_level it) \<and>
              snd (bfs_current it) < length (snd (bfs_this_level it))
      then Inr (snd (bfs_this_level it) ! snd (bfs_current it))
      else Inl OutOfBounds)"

text \<open>The children that the \<open>for\<close> loop of \<open>operator++\<close> appends: the non-null ones, in order.\<close>

fun present_children :: "'a tree option list \<Rightarrow> 'a tree list" where
  "present_children [] = []"
| "present_children (None # cs) = present_children cs"
| "present_children (Some t # cs) = t # present_children cs"




text \<open>
  The specification of level order, in the words of the spec: the nodes of a level from
  left to right, then the next level, which is the present children of these nodes,
  grouped by parent, from left to right.
\<close>

definition next_level_of :: "'a tree list \<Rightarrow> 'a tree list" where
  "next_level_of ts = concat (map (\<lambda>t. present_children (M_children t)) ts)"

definition node_count :: "'a tree list \<Rightarrow> nat" where
  "node_count ts = length (concat (map preorder ts))"

lemma preorder_slots_present: "preorder_slots cs = concat (map preorder (present_children cs))"
  by (induction cs rule: present_children.induct) simp_all

lemma node_count_next_level: "ts \<noteq> [] \<Longrightarrow> node_count (next_level_of ts) < node_count ts"
proof (induction ts)
  case Nil
  then show ?case by simp
next
  case (Cons t ts)
  obtain a v cs where t: "t = Node a v cs" by (cases t)
  have "node_count (next_level_of ts) \<le> node_count ts"
    using Cons.IH by (cases "ts = []") (auto simp: node_count_def next_level_of_def)
  then show ?case
    by (simp add: node_count_def next_level_of_def t preorder_slots_present)
qed

function level_order :: "'a tree list \<Rightarrow> 'a tree list" where
  "level_order ts = (if ts = [] then [] else ts @ level_order (next_level_of ts))"
  by pat_completeness auto
termination
  by (relation "measure node_count") (auto simp: node_count_next_level)

declare level_order.simps [simp del]


section \<open>Iterative removal of children (lines 182--198)\<close>

text \<open>
  \<open>remove_children\<close> keeps one pointer, \<open>children_ptr\<close>, to the children vector that is
  being drained. The pointer always designates a vector reached from \<open>_M_children\<close> of
  the node by following \<open>back()\<close>, so it is modelled as a focus in the children vector of
  the node: \<open>cur\<close> is the vector pointed to, and the context lists, innermost first,
  for every node on the way the slots before its own (last) slot, its address and its
  value. \<open>plug\<close> reads the whole vector back; writing through the pointer changes \<open>cur\<close>
  and nothing else.
\<close>

type_synonym 'a frame = "'a tree option list \<times> nat \<times> 'a"

fun plug :: "'a frame list \<Rightarrow> 'a tree option list \<Rightarrow> 'a tree option list" where
  "plug [] cs = cs"
| "plug ((init, a, v) # ctx) cs = plug ctx (init @ [Some (Node a v cs)])"

text \<open>
  Destroying a handle releases the node it owns, after the nodes its children own (the
  destructor of the vector runs first); a null handle releases nothing. The log of a run
  lists the nodes in the order of their release, each as it was when it was released.
\<close>

fun released :: "'a tree option \<Rightarrow> 'a tree list"
  and released_slots :: "'a tree option list \<Rightarrow> 'a tree list" where
  "released None = []"
| "released (Some (Node a v cs)) = released_slots cs @ [Node a v cs]"
| "released_slots [] = []"
| "released_slots (c # cs) = released c @ released_slots cs"

text \<open>
  The innermost loop (lines 191--194): while the last slot holds a node that has
  children, the pointer moves to the children of that node. \<open>back()\<close> of an empty
  vector is undefined.
\<close>

partial_function (option) rc_descend ::
  "'a frame list \<Rightarrow> 'a tree option list \<Rightarrow> (error + 'a frame list \<times> 'a tree option list) option" where
  "rc_descend ctx cur =
     (if cur = [] then Some (Inl EmptyContainer)
      else case last cur of
             None \<Rightarrow> Some (Inr (ctx, cur))
           | Some t \<Rightarrow>
               if has_child t
               then rc_descend ((butlast cur, addr t, M_value t) # ctx) (M_children t)
               else Some (Inr (ctx, cur)))"

declare rc_descend.simps [code]

text \<open>
  The middle loop (lines 190--196): while the vector pointed to is not empty, descend,
  then \<open>pop_back()\<close> the vector then pointed to; the loop goes on with that vector.
\<close>

partial_function (option) rc_drain ::
  "'a frame list \<Rightarrow> 'a tree option list \<Rightarrow> 'a tree list \<Rightarrow>
   (error + 'a frame list \<times> 'a tree option list \<times> 'a tree list) option" where
  "rc_drain ctx cur log =
     (if cur = [] then Some (Inr (ctx, cur, log))
      else do {
        r \<leftarrow> rc_descend ctx cur;
        case r of
          Inl e \<Rightarrow> Some (Inl e)
        | Inr (ctx', cur') \<Rightarrow>
            if cur' = [] then Some (Inl EmptyContainer)
            else rc_drain ctx' (butlast cur') (log @ released (last cur'))
      })"

declare rc_drain.simps [code]

text \<open>
  The outer loop (lines 188--197): while the node has a child, the pointer is set to
  \<open>_M_children\<close> of the node and the middle loop runs.
\<close>

partial_function (option) rc_outer ::
  "'a tree option list \<Rightarrow> 'a tree list \<Rightarrow> (error + 'a tree option list \<times> 'a tree list) option" where
  "rc_outer cs log =
     (if cs = [] then Some (Inr (cs, log))
      else do {
        r \<leftarrow> rc_drain [] cs log;
        case r of
          Inl e \<Rightarrow> Some (Inl e)
        | Inr (ctx, cur, log') \<Rightarrow> rc_outer (plug ctx cur) log'
      })"

declare rc_outer.simps [code]

definition remove_children :: "'a tree \<Rightarrow> (error + 'a tree \<times> 'a tree list) option" where
  "remove_children t =
     do {
       r \<leftarrow> rc_outer (M_children t) [];
       case r of
         Inl e \<Rightarrow> Some (Inl e)
       | Inr (cs, log) \<Rightarrow> Some (Inr (Node (addr t) (M_value t) cs, log))
     }"

text \<open>The descendants of a node, in pre-order, and what identifies a node.\<close>

definition descendants :: "'a tree \<Rightarrow> 'a tree list" where
  "descendants t = preorder_slots (M_children t)"

definition ident :: "'a tree \<Rightarrow> nat \<times> 'a" where
  "ident t = (addr t, M_value t)"

definition ids :: "'a tree option list \<Rightarrow> (nat \<times> 'a) list" where
  "ids cs = map ident (preorder_slots cs)"

fun ctx_ids :: "'a frame list \<Rightarrow> (nat \<times> 'a) list" where
  "ctx_ids [] = []"
| "ctx_ids ((init, a, v) # ctx) = ctx_ids ctx @ ids init @ [(a, v)]"

definition fsize :: "'a tree option list \<Rightarrow> nat" where
  "fsize cs = size_list (size_option size) cs"

text \<open>A single-child chain of \<open>n + 1\<close> nodes.\<close>

primrec chain :: "nat \<Rightarrow> nat tree" where
  "chain 0 = Node 0 0 []"
| "chain (Suc n) = Node (Suc n) (Suc n) [Some (chain n)]"

section \<open>The deprecated \<open>destroy\<close> (lines 227--317)\<close>

definition avoid_sole :: "'a tree option list \<Rightarrow> 'a tree option list" where
  "avoid_sole cs = (if length cs = 1 then cs @ [None] else cs)"

definition remove_null_but_avoid_sole :: "'a tree option list \<Rightarrow> 'a tree option list" where
  "remove_null_but_avoid_sole cs = avoid_sole (filter (\<lambda>p. p \<noteq> None) cs)"

text \<open>
  The block \<open>if (parent) {...}\<close> (lines 243--280), for the node \<open>c\<close> that \<open>current\<close>
  owns. It returns the node after the block, when \<open>parent\<close> is null, and the nodes
  released in it. In the first branch the children of \<open>c\<close> from the third on are moved to
  the end of the children of the parent (their slots stay, null), the second child of \<open>c\<close>
  becomes the first child of the parent, and the parent becomes the second child of \<open>c\<close>;
  in the second branch \<open>parent = nullptr\<close> releases the parent and what it still owns.
\<close>

definition destroy_rotate :: "'a tree \<Rightarrow> 'a tree option \<Rightarrow> error + 'a tree \<times> 'a tree list" where
  "destroy_rotate c parent =
     (case parent of
        None \<Rightarrow> Inr (c, [])
      | Some p \<Rightarrow>
          if \<not> (length (M_children p) > 0 \<and> M_children p ! 0 = None) then Inl AssertFailed
          else if length (M_children p) > 1 \<and> M_children p ! 1 \<noteq> None then
            (let more = length (M_children c) > 2;
                 pcs = (if more then M_children p @ drop 2 (M_children c) else M_children p);
                 ccs = (if more
                        then take 2 (M_children c) @ replicate (length (M_children c) - 2) None
                        else M_children c);
                 ccs = avoid_sole ccs
             in if length ccs < 2 then Inl OutOfBounds
                else (let pcs = pcs[0 := ccs ! 1];
                          ccs = ccs[1 := Some (Node (addr p) (M_value p) pcs)]
                      in Inr (Node (addr c) (M_value c) ccs, [])))
          else Inr (c, released (Some p)))"

text \<open>
  The loop of \<open>destroy\<close> (lines 237--293) on \<open>current\<close>, \<open>parent\<close> and the log of the
  released nodes. A childless \<open>current\<close> is released and replaced by \<open>parent\<close>. After the
  block above, a present first child becomes \<open>current\<close> and the node \<open>parent\<close>; with a
  null first child and exactly two slots the node is released and its second child
  becomes \<open>current\<close>; otherwise the null slots are removed. When the loop ends, the local
  \<open>parent\<close> goes out of scope.
\<close>

partial_function (option) destroy_loop ::
  "'a tree option \<Rightarrow> 'a tree option \<Rightarrow> 'a tree list \<Rightarrow> (error + 'a tree list) option" where
  "destroy_loop current parent log =
     (case current of
        None \<Rightarrow> Some (Inr (log @ released parent))
      | Some c \<Rightarrow>
          if M_children c = [] then destroy_loop parent None (log @ [c])
          else
            (case destroy_rotate c parent of
               Inl e \<Rightarrow> Some (Inl e)
             | Inr (c1, rel) \<Rightarrow>
                 (case M_children c1 of
                    [] \<Rightarrow> Some (Inl OutOfBounds)
                  | Some l # rest \<Rightarrow>
                      destroy_loop (Some l) (Some (Node (addr c1) (M_value c1) (None # rest)))
                        (log @ rel)
                  | None # rest \<Rightarrow>
                      if length (M_children c1) = 2
                      then destroy_loop (hd rest) None
                             (log @ rel @ [Node (addr c1) (M_value c1) [None, None]])
                      else destroy_loop
                             (Some (Node (addr c1) (M_value c1)
                                (remove_null_but_avoid_sole (M_children c1))))
                             None (log @ rel))))"

declare destroy_loop.simps [code]

text \<open>\<open>destroy(ptr)\<close> moves the handle out of \<open>ptr\<close>, which is left null.\<close>

definition destroy :: "'a tree option \<Rightarrow> (error + 'a tree option \<times> 'a tree list) option" where
  "destroy ptr = map_option (map_sum id (\<lambda>log. (None, log))) (destroy_loop ptr None [])"

text \<open>Trees in which every node has at most two children.\<close>

fun binary :: "'a tree \<Rightarrow> bool"
  and binary_slots :: "'a tree option list \<Rightarrow> bool" where
  "binary (Node a v cs) = (length cs \<le> 2 \<and> binary_slots cs)"
| "binary_slots [] = True"
| "binary_slots (None # cs) = binary_slots cs"
| "binary_slots (Some t # cs) = (binary t \<and> binary_slots cs)"

definition nodes :: "'a tree option \<Rightarrow> 'a tree list" where
  "nodes p = (case p of None \<Rightarrow> [] | Some t \<Rightarrow> preorder t)"

text \<open>
  The invariant of the loop on such trees: what \<open>current\<close> and \<open>parent\<close> own is binary,
  the first slot of the parent is null (its node is \<open>current\<close> or below it), and
  \<open>parent\<close> is null when \<open>current\<close> is. The loop ends because, in lexicographic order,
  the number of nodes held, the number of nodes under \<open>current\<close> and the number of
  slots of the node of \<open>current\<close> decrease.
\<close>

definition destroy_inv :: "'a tree option \<Rightarrow> 'a tree option \<Rightarrow> bool" where
  "destroy_inv cur par =
     ((case cur of None \<Rightarrow> par = None | Some c \<Rightarrow> binary c) \<and>
      (case par of
         None \<Rightarrow> True
       | Some p \<Rightarrow> binary p \<and> M_children p \<noteq> [] \<and> hd (M_children p) = None))"

definition destroy_measures :: "('a tree option \<times> 'a tree option \<Rightarrow> nat) list" where
  "destroy_measures =
     [\<lambda>(cur, par). length (nodes cur) + length (nodes par),
      \<lambda>(cur, par). length (nodes cur),
      \<lambda>(cur, par). (case cur of None \<Rightarrow> 0 | Some c \<Rightarrow> length (M_children c))]"

section \<open>Iterators after a number of increments\<close>

text \<open>\<open>k\<close> calls of \<open>operator++\<close>; a contract violation on the way is the result.\<close>

primrec dfs_advance :: "nat \<Rightarrow> 'a dfs_iterator \<Rightarrow> error + 'a dfs_iterator" where
  "dfs_advance 0 it = Inr it"
| "dfs_advance (Suc k) it = (case dfs_advance k it of Inl e \<Rightarrow> Inl e | Inr it' \<Rightarrow> dfs_incr it')"

primrec ino_advance :: "nat \<Rightarrow> 'a ino_iterator \<Rightarrow> error + 'a ino_iterator" where
  "ino_advance 0 it = Inr it"
| "ino_advance (Suc k) it = (case ino_advance k it of Inl e \<Rightarrow> Inl e | Inr it' \<Rightarrow> ino_incr it')"

text \<open>The nodes that an iterator has still to yield.\<close>

definition dfs_pending :: "'a dfs_iterator \<Rightarrow> 'a tree list" where
  "dfs_pending it =
     (case dfs_current it of
        None \<Rightarrow> []
      | Some x \<Rightarrow> preorder x @ stack_preorder (dfs_stack it))"

definition ino_pending :: "'a ino_iterator \<Rightarrow> 'a tree list" where
  "ino_pending it =
     (case ino_current it of
        None \<Rightarrow> []
      | Some x \<Rightarrow> x # stack_inorder (ino_stack it))"

section \<open>Properties of the node operations\<close>

text \<open>
  Claim C8. Under the stated preconditions the partial operations are in bounds and the
  error branch is not taken: for an index \<open>i\<close> below \<open>child_count()\<close>, \<open>child(i)\<close> returns
  the handle at position \<open>i\<close>; for a node with a non-empty children sequence,
  \<open>pop_back()\<close> succeeds and removes exactly the last handle (the sequence before the
  call is the sequence after it followed by the removed handle).
\<close>

theorem child_pop_back_in_bounds:
  "(unat i < child_count t \<longrightarrow> child t i = Inr (M_children t ! unat i)) \<and>
   (has_child t \<longrightarrow>
      (\<exists>t'. pop_back t = Inr t' \<and> M_children t = M_children t' @ [last (M_children t)]))"
  by (simp add: child_def child_count_def has_child_def pop_back_def)

theorem child_pop_back_in_bounds_witness:
  "unat (1 :: 32 word) < child_count (Node 10 (7::int) [None, Some (Node 11 8 [])]) \<and>
   child (Node 10 (7::int) [None, Some (Node 11 8 [])]) 1 = Inr (Some (Node 11 8 [])) \<and>
   has_child (Node 10 (7::int) [None, Some (Node 11 8 [])]) \<and>
   pop_back (Node 10 (7::int) [None, Some (Node 11 8 [])]) = Inr (Node 10 7 [None])"
  using child_pop_back_in_bounds [of 1 "Node 10 (7::int) [None, Some (Node 11 8 [])]"]
  by (simp add: child_count_def has_child_def pop_back_def)

text \<open>
  Claim C9. Container mutations preserve the order of the children and touch nothing
  else: \<open>push_back(h)\<close> on a node with children \<open>c0..c(n-1)\<close> yields the children
  \<open>c0..c(n-1),h\<close> and the same value; \<open>pop_back()\<close> on a node with children
  \<open>c0..c(n-2),c(n-1)\<close> yields the children \<open>c0..c(n-2)\<close> and the same value. In
  particular \<open>pop_back()\<close> after \<open>push_back(h)\<close> gives the node back as it was.
\<close>

theorem push_pop_frame:
  "M_children (push_back t h) = M_children t @ [h] \<and>
   M_value (push_back t h) = M_value t \<and> addr (push_back t h) = addr t \<and>
   pop_back (Node a v (cs @ [c])) = Inr (Node a v cs) \<and>
   pop_back (push_back t h) = Inr t"
  by (simp add: push_back_def pop_back_def)

section \<open>Properties of the pretty-printer\<close>

lemma print_appends:
  "\<exists>r. print_tree put p os prefix = os @ r"
  "\<exists>r. print_children put cs os prefix = os @ r"
proof (induction put p os prefix and put cs os prefix rule: print_tree_print_children.induct)
  case (4 put c cs os prefix)
  define os1 where "os1 = os @ prefix @ (if cs = [] then branch_last else branch_mid) @ '' ''"
  define pf1 where "pf1 = prefix @ (if cs = [] then indent_last else indent_mid)"
  from 4(1)[of "cs = []"] obtain r1 where r1: "print_tree put c os1 pf1 = os1 @ r1"
    unfolding os1_def pf1_def by blast
  from 4(2)[of "cs = []"] obtain r2
    where r2: "print_children put cs (print_tree put c os1 pf1) prefix =
               print_tree put c os1 pf1 @ r2"
    unfolding os1_def pf1_def by blast
  have "print_children put (c # cs) os prefix =
        print_children put cs (print_tree put c os1 pf1) prefix"
    by (simp add: os1_def pf1_def)
  also have "\<dots> = (os1 @ r1) @ r2"
    using r2 r1 by simp
  also have "\<dots> = os @ (prefix @ (if cs = [] then branch_last else branch_mid) @ '' '') @ r1 @ r2"
    by (simp add: os1_def)
  finally show ?case by blast
next
  case (2 put a v cs os prefix)
  then obtain r where "print_children put cs (os @ put v @ newline) prefix = (os @ put v @ newline) @ r"
    by blast
  then have "print_tree put (Some (Node a v cs)) os prefix = os @ (put v @ newline @ r)"
    by simp
  then show ?case by blast
qed simp_all

text \<open>
  Claim C10. For an absent handle \<open>print_tree\<close> writes exactly \<open>(null)\<close> and a newline
  after what the sink already holds, and nothing else (no child is rendered); for a
  present handle it writes the node's value and a newline, and whatever else it writes
  (the rendering of the children) comes after that.
\<close>

theorem print_tree_null_and_value:
  "print_tree put None os prefix = os @ ''(null)'' @ [CHR 0x0A] \<and>
   print_tree put (Some t) os prefix =
     print_children put (M_children t) (os @ put (M_value t) @ [CHR 0x0A]) prefix \<and>
   (\<exists>rest. print_tree put (Some t) os prefix = os @ put (M_value t) @ [CHR 0x0A] @ rest)"
proof -
  obtain a v cs where t: "t = Node a v cs" by (cases t)
  obtain r where "print_children put cs (os @ put v @ newline) prefix = (os @ put v @ newline) @ r"
    using print_appends(2) by blast
  then show ?thesis by (simp add: t newline_def)
qed

section \<open>Depth-first iteration: the pre-order, and null slots\<close>

lemma dfs_loop_preorder:
  "dfs_loop st = Inr (c, st') \<Longrightarrow>
   stack_preorder st = (case c of None \<Rightarrow> [] | Some t \<Rightarrow> preorder t @ stack_preorder st')"
  by (induction st arbitrary: c st' rule: dfs_loop.induct) (auto simp: stack_preorder_def)

lemma dfs_loop_present:
  "dfs_loop st = Inr (c, st') \<Longrightarrow>
   stack_present st = (case c of None \<Rightarrow> True | Some t \<Rightarrow> all_present t \<and> stack_present st')"
  by (induction st arbitrary: c st' rule: dfs_loop.induct) (auto simp: stack_present_def)

lemma dfs_loop_null:
  "dfs_loop st = Inl e \<Longrightarrow> e = NullDereference \<and> \<not> stack_present st"
  by (induction st arbitrary: e rule: dfs_loop.induct) (auto simp: stack_present_def)

lemma preorder_nonempty: "preorder t \<noteq> []"
  by (cases t) simp

lemma preorder_children: "preorder t = t # preorder_slots (M_children t)"
  by (cases t) simp

lemma all_present_children: "all_present t = slots_present (M_children t)"
  by (cases t) simp

lemma dfs_run_state:
  "dfs_run \<lparr>dfs_current = Some t, dfs_stack = st\<rparr> acc =
   (if all_present t \<and> stack_present st
    then Some (Inr (acc @ preorder t @ stack_preorder st))
    else Some (Inl NullDereference))"
proof (induction "length (preorder t @ stack_preorder st)" arbitrary: t st acc rule: less_induct)
  case less
  let ?it = "\<lparr>dfs_current = Some t, dfs_stack = st\<rparr>"
  define st1 where "st1 = (if M_children t \<noteq> [] then M_children t # st else st)"
  have st1: "stack_preorder st1 = preorder_slots (M_children t) @ stack_preorder st"
    by (auto simp: st1_def stack_preorder_def)
  have pr1: "stack_present st1 = (all_present t \<and> stack_present st)"
    by (auto simp: st1_def stack_present_def all_present_children)
  have start: "dfs_run ?it acc =
               (case dfs_incr ?it of Inl e \<Rightarrow> Some (Inl e) | Inr it' \<Rightarrow> dfs_run it' (acc @ [t]))"
    by (subst dfs_run.simps) (simp add: dfs_eq_def dfs_end_def dfs_deref_def)
  have incr: "dfs_incr ?it =
              (case dfs_loop st1 of
                 Inl e \<Rightarrow> Inl e
               | Inr (c, st') \<Rightarrow> Inr \<lparr>dfs_current = c, dfs_stack = st'\<rparr>)"
    by (simp add: dfs_incr_def st1_def Let_def)
  show ?case
  proof (cases "dfs_loop st1")
    case (Inl e)
    from dfs_loop_null[OF Inl] have "e = NullDereference" and "\<not> stack_present st1" by simp_all
    then show ?thesis using pr1 by (simp add: start incr Inl)
  next
    case (Inr r)
    obtain c st' where r: "r = (c, st')" by (cases r)
    note loop = Inr[unfolded r]
    have step: "dfs_run ?it acc = dfs_run \<lparr>dfs_current = c, dfs_stack = st'\<rparr> (acc @ [t])"
      by (simp add: start incr loop)
    show ?thesis
    proof (cases c)
      case None
      then have "stack_preorder st1 = []" and "stack_present st1"
        using dfs_loop_preorder[OF loop] dfs_loop_present[OF loop] by simp_all
      moreover have "dfs_run \<lparr>dfs_current = None, dfs_stack = st'\<rparr> (acc @ [t]) =
                     Some (Inr (acc @ [t]))"
        by (subst dfs_run.simps) (simp add: dfs_eq_def dfs_end_def)
      ultimately show ?thesis using step None st1 pr1 by (simp add: preorder_children[of t])
    next
      case (Some t')
      then have eq: "stack_preorder st1 = preorder t' @ stack_preorder st'"
        and pr: "stack_present st1 = (all_present t' \<and> stack_present st')"
        using dfs_loop_preorder[OF loop] dfs_loop_present[OF loop] by simp_all
      have "length (preorder t' @ stack_preorder st') < length (preorder t @ stack_preorder st)"
        using eq st1 by (simp add: preorder_children[of t])
      from less[OF this]
      have "dfs_run \<lparr>dfs_current = Some t', dfs_stack = st'\<rparr> (acc @ [t]) =
            (if all_present t' \<and> stack_present st'
             then Some (Inr ((acc @ [t]) @ preorder t' @ stack_preorder st'))
             else Some (Inl NullDereference))" .
      then show ?thesis
        using step Some eq st1 pr pr1 by (simp add: preorder_children[of t])
    qed
  qed
qed

text \<open>
  On a tree without a null handle the depth-first iteration ends and yields the
  pre-order: each node before the nodes of its children, the subtrees of the children
  from left to right.
\<close>

lemma dfs_preorder_present:
  "all_present t \<Longrightarrow> dfs_run (dfs_begin t) [] = Some (Inr (preorder t))"
  by (simp add: dfs_begin_def dfs_run_state stack_preorder_def stack_present_def)

text \<open>
  Claim C5. Depth-first iteration over any tree yields the pre-order, absent (null)
  slots being skipped; on \<open>1(2(4, 5), 3)\<close> the values are \<open>1, 2, 4, 5, 3\<close>. The code
  does so exactly on the trees without a null slot, among them \<open>1(2(4, 5), 3)\<close>. On a
  tree with a null slot, such as \<open>1(absent, 3)\<close>, \<open>operator++\<close> does not skip the slot:
  it dereferences the null handle.
\<close>

theorem dfs_null_slot_dereferenced:
  "dfs_run (dfs_begin tree_1_null_3) [] = Some (Inl NullDereference) \<and>
   dfs_incr (dfs_begin tree_1_null_3) = Inl NullDereference \<and>
   dfs_run (dfs_begin t) [] =
     (if all_present t then Some (Inr (preorder t)) else Some (Inl NullDereference)) \<and>
   map_option (map_sum id (map M_value)) (dfs_run (dfs_begin tree_1_2_4_5_3) []) =
     Some (Inr [1, 2, 4, 5, 3])"
proof -
  have g: "dfs_run (dfs_begin t) [] =
           (if all_present t then Some (Inr (preorder t)) else Some (Inl NullDereference))" for t :: "'b tree"
    by (simp add: dfs_begin_def dfs_run_state stack_preorder_def stack_present_def)
  have "dfs_run (dfs_begin tree_1_null_3) [] = Some (Inl NullDereference)"
    by (simp add: g tree_1_null_3_def)
  moreover have "dfs_incr (dfs_begin tree_1_null_3) = Inl NullDereference"
    by (simp add: dfs_incr_def dfs_begin_def tree_1_null_3_def)
  moreover have "map_option (map_sum id (map M_value)) (dfs_run (dfs_begin tree_1_2_4_5_3) []) =
     Some (Inr [1, 2, 4, 5, 3])"
    by (simp add: g tree_1_2_4_5_3_def)
  ultimately show ?thesis using g[of t] by simp
qed

section \<open>In-order iteration yields the in-order\<close>

lemma find_leftmost_child_inorder:
  "find_leftmost_child st t = (c, st') \<Longrightarrow> inorder t @ stack_inorder st = c # stack_inorder st'"
  by (induction st t arbitrary: c st' rule: find_leftmost_child.induct)
     (auto simp: stack_inorder_def frame_inorder_def)

lemma ino_loop_inorder:
  "ino_loop st = (c, st') \<Longrightarrow>
   stack_inorder st = (case c of None \<Rightarrow> [] | Some t \<Rightarrow> t # stack_inorder st')"
proof (induction st arbitrary: c st' rule: ino_loop.induct)
  case (5 s r st)
  obtain d st2 where f: "find_leftmost_child ((None, r) # st) s = (d, st2)"
    by (cases "find_leftmost_child ((None, r) # st) s")
  from find_leftmost_child_inorder[OF f] 5 f show ?case
    by (auto simp: stack_inorder_def frame_inorder_def)
qed (auto simp: stack_inorder_def frame_inorder_def)

lemma ino_run_state:
  "ino_run \<lparr>ino_stack = st, ino_current = Some t\<rparr> acc = Some (Inr (acc @ t # stack_inorder st))"
proof (induction "length (stack_inorder st)" arbitrary: t st acc rule: less_induct)
  case less
  obtain c st' where loop: "ino_loop st = (c, st')" by (cases "ino_loop st")
  have incr: "ino_incr \<lparr>ino_stack = st, ino_current = Some t\<rparr> = Inr \<lparr>ino_stack = st', ino_current = c\<rparr>"
    using loop by (simp add: ino_incr_def)
  have step: "ino_run \<lparr>ino_stack = st, ino_current = Some t\<rparr> acc =
              ino_run \<lparr>ino_stack = st', ino_current = c\<rparr> (acc @ [t])"
    by (subst ino_run.simps) (simp add: ino_eq_def ino_end_def ino_deref_def incr)
  show ?case
  proof (cases c)
    case None
    then have "stack_inorder st = []" using ino_loop_inorder[OF loop] by simp
    moreover have "ino_run \<lparr>ino_stack = st', ino_current = None\<rparr> (acc @ [t]) = Some (Inr (acc @ [t]))"
      by (subst ino_run.simps) (simp add: ino_eq_def ino_end_def)
    ultimately show ?thesis using step None by simp
  next
    case (Some t')
    then have eq: "stack_inorder st = t' # stack_inorder st'"
      using ino_loop_inorder[OF loop] by simp
    then have "length (stack_inorder st') < length (stack_inorder st)" by simp
    from less[OF this] have "ino_run \<lparr>ino_stack = st', ino_current = Some t'\<rparr> (acc @ [t]) =
        Some (Inr ((acc @ [t]) @ t' # stack_inorder st'))" .
    then show ?thesis using step Some eq by simp
  qed
qed

lemma ino_run_begin: "ino_run (ino_begin t) [] = Some (Inr (inorder t))"
proof -
  obtain c st where f: "find_leftmost_child [] t = (c, st)"
    by (cases "find_leftmost_child [] t")
  from find_leftmost_child_inorder[OF f] have "inorder t = c # stack_inorder st"
    by (simp add: stack_inorder_def)
  then show ?thesis by (simp add: ino_begin_def f ino_run_state)
qed

text \<open>
  Claim C6. In-order iteration over any tree ends and yields, for every node, the nodes
  of the subtree in its left-most slot first (when that slot is present), then the node
  itself, then the subtrees in its remaining slots in order, absent slots skipped
  (\<open>inorder\<close>); on the tree \<open>2(left=1, right=3)\<close> the yielded values are \<open>1, 2, 3\<close>.
\<close>

theorem ino_inorder:
  "ino_run (ino_begin t) [] = Some (Inr (inorder t)) \<and>
   map_option (map_sum id (map M_value)) (ino_run (ino_begin tree_2_1_3) []) =
     Some (Inr [1, 2, 3])"
  by (simp add: ino_run_begin tree_2_1_3_def)

text \<open>
  When the left-most slot is an absent placeholder the node itself comes first:
  \<open>2(absent, 3)\<close> yields \<open>2, 3\<close>, the binary in-order of a node without a left child.
\<close>

lemma ino_absent_left:
  "map_option (map_sum id (map M_value))
     (ino_run (ino_begin (Node 2 (2::int) [None, Some (Node 3 3 [])])) []) = Some (Inr [2, 3])"
  by (simp add: ino_run_begin)

section \<open>Breadth-first iteration yields the level order\<close>

lemma level_order_Nil [simp]: "level_order [] = []"
  by (subst level_order.simps) simp


lemma next_level_of_append: "next_level_of (xs @ ys) = next_level_of xs @ next_level_of ys"
  by (simp add: next_level_of_def)






section \<open>Iterative removal of children: termination and result\<close>

lemma preorder_slots_append: "preorder_slots (xs @ ys) = preorder_slots xs @ preorder_slots ys"
  by (simp add: preorder_slots_present) (induction xs rule: present_children.induct, simp_all)

lemma ids_append: "ids (xs @ ys) = ids xs @ ids ys"
  by (simp add: ids_def preorder_slots_append)

lemma ids_single:
  "ids [None] = []"
  "ids [Some (Node a v ks)] = (a, v) # ids ks"
  by (simp_all add: ids_def ident_def)

lemma ids_plug: "ids (plug ctx cs) = ctx_ids ctx @ ids cs"
  by (induction ctx cs rule: plug.induct) (simp_all add: ids_append ids_single)

lemma fsize_snoc: "fsize (init @ [x]) = fsize init + size_option size x + 1"
  by (simp add: fsize_def)

lemma fsize_plug_mono: "fsize cs \<le> fsize cs' \<Longrightarrow> fsize (plug ctx cs) \<le> fsize (plug ctx cs')"
  by (induction ctx cs arbitrary: cs' rule: plug.induct) (simp_all add: fsize_snoc fsize_def)

lemma fsize_plug_strict: "fsize cs < fsize cs' \<Longrightarrow> fsize (plug ctx cs) < fsize (plug ctx cs')"
  by (induction ctx cs arbitrary: cs' rule: plug.induct) (simp_all add: fsize_snoc fsize_def)

lemma rc_drain_Nil: "rc_drain ctx [] log = Some (Inr (ctx, [], log))"
  by (subst rc_drain.simps) simp

lemma rc_drain_unfold:
  "cur \<noteq> [] \<Longrightarrow>
   rc_drain ctx cur log =
     Option.bind (rc_descend ctx cur)
       (\<lambda>r. case r of
               Inl e \<Rightarrow> Some (Inl e)
             | Inr (ctx', cur') \<Rightarrow>
                 if cur' = [] then Some (Inl EmptyContainer)
                 else rc_drain ctx' (butlast cur') (log @ released (last cur')))"
  by (subst rc_drain.simps) simp

lemma rc_descend_stop:
  "(case x of None \<Rightarrow> True | Some t \<Rightarrow> \<not> has_child t) \<Longrightarrow>
   rc_descend ctx (init @ [x]) = Some (Inr (ctx, init @ [x]))"
  by (subst rc_descend.simps) (simp split: option.splits)

lemma rc_descend_step:
  "ks \<noteq> [] \<Longrightarrow>
   rc_descend ctx (init @ [Some (Node a v ks)]) = rc_descend ((init, a, v) # ctx) ks"
  by (subst rc_descend.simps) (simp add: has_child_def)

lemma rc_drain_pop:
  "(case x of None \<Rightarrow> True | Some t \<Rightarrow> \<not> has_child t) \<Longrightarrow>
   rc_drain ctx (init @ [x]) log = rc_drain ctx init (log @ released x)"
  by (simp add: rc_drain_unfold rc_descend_stop)

lemma rc_drain_step:
  "ks \<noteq> [] \<Longrightarrow>
   rc_drain ctx (init @ [Some (Node a v ks)]) log = rc_drain ((init, a, v) # ctx) ks log"
  by (simp add: rc_drain_unfold rc_descend_step)

lemma released_childless:
  "(case x of None \<Rightarrow> True | Some t \<Rightarrow> \<not> has_child t) \<Longrightarrow>
   map ident (released x) = ids [x] \<and> list_all (\<lambda>t. M_children t = []) (released x) \<and>
   length (released x) \<le> 1"
  by (cases x; cases "the x") (simp_all add: has_child_def ids_def ident_def)

lemma rc_drain_result:
  "\<exists>ctx' L. rc_drain ctx cur log = Some (Inr (ctx', [], log @ L)) \<and>
     ctx_ids ctx' @ rev (map ident L) = ctx_ids ctx @ ids cur \<and>
     list_all (\<lambda>t. M_children t = []) L \<and>
     fsize (plug ctx' []) \<le> fsize (plug ctx cur) \<and>
     (cur \<noteq> [] \<longrightarrow> fsize (plug ctx' []) < fsize (plug ctx cur))"
proof (induction "fsize cur" arbitrary: ctx cur log rule: less_induct)
  case less
  show ?case
  proof (cases cur rule: rev_cases)
    case Nil
    have "rc_drain ctx cur log = Some (Inr (ctx, [], log @ []))"
      by (simp add: Nil rc_drain_Nil)
    moreover have "ctx_ids ctx @ rev (map ident []) = ctx_ids ctx @ ids cur"
      by (simp add: Nil ids_def)
    ultimately show ?thesis using Nil by (intro exI[of _ ctx] exI[of _ "[]"]) simp
  next
    case (snoc init x)
    show ?thesis
    proof (cases "case x of None \<Rightarrow> True | Some t \<Rightarrow> \<not> has_child t")
      case True
      have "fsize init < fsize cur" by (simp add: snoc fsize_snoc)
      from less[OF this, of ctx "log @ released x"]
      obtain ctx' L where
        run: "rc_drain ctx init ((log @ released x)) = Some (Inr (ctx', [], (log @ released x) @ L))" and
        idl: "ctx_ids ctx' @ rev (map ident L) = ctx_ids ctx @ ids init" and
        leaf: "list_all (\<lambda>t. M_children t = []) L" and
        le: "fsize (plug ctx' []) \<le> fsize (plug ctx init)"
        by blast
      note rel = released_childless[OF True]
      have rev1: "rev (ids [x]) = ids [x]"
        using rel by (cases "released x") (simp_all flip: rel[THEN conjunct1])
      have "rc_drain ctx cur log = Some (Inr (ctx', [], log @ (released x @ L)))"
        using run by (simp add: snoc rc_drain_pop[OF True])
      moreover have "ctx_ids ctx' @ rev (map ident (released x @ L)) = ctx_ids ctx @ ids cur"
        using idl rel by (simp add: rev1 snoc ids_append flip: append_assoc)
      moreover have "list_all (\<lambda>t. M_children t = []) (released x @ L)"
        using leaf rel by simp
      moreover have "fsize (plug ctx init) < fsize (plug ctx cur)"
        by (rule fsize_plug_strict) (simp add: snoc fsize_snoc)
      ultimately show ?thesis using le
        by (intro exI[of _ ctx'] exI[of _ "released x @ L"]) simp
    next
      case False
      then obtain a v ks where x: "x = Some (Node a v ks)" and ks: "ks \<noteq> []"
        by (cases x; cases "the x") (auto simp: has_child_def)
      have "fsize ks < fsize cur" by (simp add: snoc x fsize_snoc) (simp add: fsize_def)
      from less[OF this, of "(init, a, v) # ctx" log]
      obtain ctx' L where
        run: "rc_drain ((init, a, v) # ctx) ks log = Some (Inr (ctx', [], log @ L))" and
        idl: "ctx_ids ctx' @ rev (map ident L) = ctx_ids ((init, a, v) # ctx) @ ids ks" and
        leaf: "list_all (\<lambda>t. M_children t = []) L" and
        lt: "fsize (plug ctx' []) < fsize (plug ((init, a, v) # ctx) ks)"
        using ks by blast
      have "rc_drain ctx cur log = Some (Inr (ctx', [], log @ L))"
        using run by (simp add: snoc x rc_drain_step[OF ks])
      moreover have "ctx_ids ctx' @ rev (map ident L) = ctx_ids ctx @ ids cur"
        using idl by (simp add: snoc x ids_append ids_single)
      moreover have "fsize (plug ctx' []) < fsize (plug ctx cur)"
        using lt by (simp add: snoc x)
      ultimately show ?thesis using leaf
        by (intro exI[of _ ctx'] exI[of _ L]) simp
    qed
  qed
qed

lemma rc_outer_result:
  "\<exists>L. rc_outer cs log = Some (Inr ([], log @ L)) \<and> map ident L = rev (ids cs) \<and>
       list_all (\<lambda>t. M_children t = []) L"
proof (induction "fsize cs" arbitrary: cs log rule: less_induct)
  case less
  show ?case
  proof (cases "cs = []")
    case True
    have "rc_outer cs log = Some (Inr ([], log @ []))"
      by (subst rc_outer.simps) (simp add: True)
    then show ?thesis using True by (intro exI[of _ "[]"]) (simp add: ids_def)
  next
    case False
    from rc_drain_result[of "[]" cs log] False
    obtain ctx' L1 where
      run: "rc_drain [] cs log = Some (Inr (ctx', [], log @ L1))" and
      idl: "ctx_ids ctx' @ rev (map ident L1) = ids cs" and
      leaf: "list_all (\<lambda>t. M_children t = []) L1" and
      lt: "fsize (plug ctx' []) < fsize cs"
      by auto
    from less[OF lt, of "log @ L1"]
    obtain L2 where
      out: "rc_outer (plug ctx' []) (log @ L1) = Some (Inr ([], (log @ L1) @ L2))" and
      idl2: "map ident L2 = rev (ids (plug ctx' []))" and
      leaf2: "list_all (\<lambda>t. M_children t = []) L2"
      by blast
    have "rc_outer cs log = rc_outer (plug ctx' []) (log @ L1)"
      by (subst rc_outer.simps) (simp add: False run)
    then have "rc_outer cs log = Some (Inr ([], log @ (L1 @ L2)))"
      using out by simp
    moreover have "map ident (L1 @ L2) = rev (ids cs)"
      using idl2 by (simp add: ids_plug ids_def[of "[]"] idl[symmetric])
    ultimately show ?thesis using leaf leaf2
      by (intro exI[of _ "L1 @ L2"]) simp
  qed
qed

lemma remove_children_result:
  "\<exists>log. remove_children t = Some (Inr (Node (addr t) (M_value t) [], log)) \<and>
         map ident log = rev (map ident (descendants t)) \<and>
         list_all (\<lambda>t. M_children t = []) log"
  using rc_outer_result[of "M_children t" "[]"]
  by (auto simp: remove_children_def descendants_def ids_def)

lemma rc_descend_total: "\<exists>r. rc_descend ctx cur = Some r"
proof (induction "fsize cur" arbitrary: ctx cur rule: less_induct)
  case less
  show ?case
  proof (cases cur rule: rev_cases)
    case Nil
    then show ?thesis by (subst rc_descend.simps) simp
  next
    case (snoc init x)
    show ?thesis
    proof (cases "case x of None \<Rightarrow> True | Some t \<Rightarrow> \<not> has_child t")
      case True
      then show ?thesis by (simp add: snoc rc_descend_stop)
    next
      case False
      then obtain a v ks where x: "x = Some (Node a v ks)" and ks: "ks \<noteq> []"
        by (cases x; cases "the x") (auto simp: has_child_def)
      have "fsize ks < fsize cur" by (simp add: snoc x fsize_snoc) (simp add: fsize_def)
      from less[OF this] show ?thesis by (simp add: snoc x rc_descend_step[OF ks])
    qed
  qed
qed

lemma rc_descend_result:
  "cur \<noteq> [] \<Longrightarrow>
   \<exists>ctx' cur'. rc_descend ctx cur = Some (Inr (ctx', cur')) \<and> cur' \<noteq> [] \<and>
     (case last cur' of None \<Rightarrow> True | Some d \<Rightarrow> M_children d = []) \<and>
     plug ctx' cur' = plug ctx cur"
proof (induction "fsize cur" arbitrary: ctx cur rule: less_induct)
  case less
  from less.prems obtain init x where snoc: "cur = init @ [x]"
    by (cases cur rule: rev_cases) auto
  show ?case
  proof (cases "case x of None \<Rightarrow> True | Some t \<Rightarrow> \<not> has_child t")
    case True
    then have "rc_descend ctx cur = Some (Inr (ctx, cur))"
      by (simp add: snoc rc_descend_stop)
    moreover have "case last cur of None \<Rightarrow> True | Some d \<Rightarrow> M_children d = []"
      using True by (simp add: snoc has_child_def split: option.splits)
    ultimately show ?thesis using less.prems by blast
  next
    case False
    then obtain a v ks where x: "x = Some (Node a v ks)" and ks: "ks \<noteq> []"
      by (cases x; cases "the x") (auto simp: has_child_def)
    have "fsize ks < fsize cur" by (simp add: snoc x fsize_snoc) (simp add: fsize_def)
    from less.hyps[OF this ks, of "(init, a, v) # ctx"]
    show ?thesis by (simp add: snoc x rc_descend_step[OF ks])
  qed
qed

lemma released_count:
  assumes "map ident l = rev (map ident (descendants u))"
  shows "length l = length (descendants u)"
proof -
  have "length l = length (map ident l)" by simp
  also have "\<dots> = length (rev (map ident (descendants u)))" by (simp only: assms)
  finally show ?thesis by simp
qed

lemma preorder_chain: "length (preorder (chain n)) = Suc n"
  by (induction n) simp_all

text \<open>
  Claim C1. For every node, \<open>remove_children()\<close> returns and leaves the node with
  \<open>child_count()\<close> equal to \<open>0\<close> (its address and value unchanged), and it has released
  every descendant of the node: the released nodes are, by address and value, the
  descendants (here in the reverse of their pre-order, each exactly once), and every one
  of them had no children left when it was released.
\<close>

theorem remove_children_releases_all:
  "\<exists>t' log. remove_children t = Some (Inr (t', log)) \<and>
            child_count t' = 0 \<and> addr t' = addr t \<and> M_value t' = M_value t \<and>
            map ident log = rev (map ident (descendants t)) \<and>
            mset (map addr log) = mset (map addr (descendants t)) \<and>
            list_all (\<lambda>d. child_count d = 0) log"
proof -
  from remove_children_result[of t] obtain log where
    r: "remove_children t = Some (Inr (Node (addr t) (M_value t) [], log))" and
    i: "map ident log = rev (map ident (descendants t))" and
    l: "list_all (\<lambda>t. M_children t = []) log"
    by blast
  have "map addr log = map fst (map ident log)"
    by (simp add: ident_def comp_def)
  also have "\<dots> = rev (map addr (descendants t))"
    by (simp add: i rev_map ident_def comp_def)
  finally have "mset (map addr log) = mset (map addr (descendants t))"
    by simp
  with r i l show ?thesis by (simp add: child_count_def)
qed

text \<open>
  Claim C2. \<open>remove_children()\<close> terminates on every finite tree without recursion:
  each of its three loops returns from every state, whatever the depth of the tree. The
  innermost loop, started on a non-empty vector, changes nothing and stops at a
  non-empty vector whose last slot is null or holds a node without children; the middle
  loop ends with the vector it points to empty and the outer loop with the children
  sequence of the node empty; and every node that a \<open>pop_back()\<close> releases on the way
  has no children at that moment, so that no destructor destroys a subtree: there is one
  release of a leaf per descendant. A single-child chain of 10,000 nodes is drained so,
  in 9,999 releases.
\<close>

theorem remove_children_terminates:
  "(\<exists>r. rc_descend ctx cur = Some r) \<and>
   (\<exists>ctx' cur'. rc_descend ctx (init @ [x]) = Some (Inr (ctx', cur')) \<and> cur' \<noteq> [] \<and>
      (case last cur' of None \<Rightarrow> True | Some d \<Rightarrow> M_children d = []) \<and>
      plug ctx' cur' = plug ctx (init @ [x])) \<and>
   (\<exists>ctx' rel. rc_drain ctx cur log = Some (Inr (ctx', [], log @ rel)) \<and>
      list_all (\<lambda>d. M_children d = []) rel) \<and>
   (\<exists>rel. rc_outer cs log = Some (Inr ([], log @ rel)) \<and>
      list_all (\<lambda>d. M_children d = []) rel) \<and>
   (\<exists>t' log'. remove_children t = Some (Inr (t', log')) \<and> M_children t' = [] \<and>
      list_all (\<lambda>d. M_children d = []) log' \<and> length log' = length (descendants t)) \<and>
   (\<exists>log'. remove_children (chain 9999) = Some (Inr (Node 9999 9999 [], log')) \<and>
      length log' = 9999 \<and> list_all (\<lambda>d. M_children d = []) log')"
proof -
  have "\<exists>ctx' cur'. rc_descend ctx (init @ [x]) = Some (Inr (ctx', cur')) \<and> cur' \<noteq> [] \<and>
      (case last cur' of None \<Rightarrow> True | Some d \<Rightarrow> M_children d = []) \<and>
      plug ctx' cur' = plug ctx (init @ [x])"
    using rc_descend_result[of "init @ [x]" ctx] by simp
  moreover have "\<exists>ctx' rel. rc_drain ctx cur log = Some (Inr (ctx', [], log @ rel)) \<and>
      list_all (\<lambda>d. M_children d = []) rel"
    using rc_drain_result[of ctx cur log] by blast
  moreover have "\<exists>rel. rc_outer cs log = Some (Inr ([], log @ rel)) \<and>
      list_all (\<lambda>d. M_children d = []) rel"
    using rc_outer_result[of cs log] by blast
  moreover have "\<exists>t' log'. remove_children t = Some (Inr (t', log')) \<and> M_children t' = [] \<and>
      list_all (\<lambda>d. M_children d = []) log' \<and> length log' = length (descendants t)"
    using remove_children_result[of t] released_count by fastforce
  moreover have "\<exists>log'. remove_children (chain 9999) = Some (Inr (Node 9999 9999 [], log')) \<and>
      length log' = 9999 \<and> list_all (\<lambda>d. M_children d = []) log'"
  proof -
    have c: "chain 9999 = Node 9999 9999 [Some (chain 9998)]"
      using chain.simps(2)[of 9998] by simp
    from remove_children_result[of "chain 9999"] obtain log' where
      r: "remove_children (chain 9999) =
          Some (Inr (Node (addr (chain 9999)) (M_value (chain 9999)) [], log'))" and
      i: "map ident log' = rev (map ident (descendants (chain 9999)))" and
      l: "list_all (\<lambda>d. M_children d = []) log'"
      by blast
    have "length log' = length (preorder (chain 9998))"
      using released_count[OF i] by (simp add: descendants_def c)
    then have "length log' = 9999" by (simp add: preorder_chain)
    with r l show ?thesis by (simp add: c)
  qed
  ultimately show ?thesis using rc_descend_total[of ctx cur] by blast
qed

section \<open>The deprecated \<open>destroy\<close> on trees with at most two children per node\<close>

lemma destroy_loop_exit: "destroy_loop None None log = Some (Inr log)"
  by (subst destroy_loop.simps) simp

lemma destroy_loop_leaf:
  "destroy_loop (Some (Node a v [])) par log = destroy_loop par None (log @ [Node a v []])"
  by (subst destroy_loop.simps) simp

lemma destroy_loop_left:
  "destroy_loop (Some (Node a v (Some l # rest))) None log =
   destroy_loop (Some l) (Some (Node a v (None # rest))) log"
  by (subst destroy_loop.simps) (simp add: destroy_rotate_def)

lemma destroy_loop_right:
  "destroy_loop (Some (Node a v [None, y])) None log =
   destroy_loop y None (log @ [Node a v [None, None]])"
  by (subst destroy_loop.simps) (simp add: destroy_rotate_def)

lemma destroy_loop_sole_null:
  "destroy_loop (Some (Node a v [None])) None log = destroy_loop (Some (Node a v [])) None log"
  by (subst destroy_loop.simps)
     (simp add: destroy_rotate_def remove_null_but_avoid_sole_def avoid_sole_def)

lemma destroy_loop_after_block:
  assumes "M_children c \<noteq> []" and "destroy_rotate c par = Inr (c1, rel)"
    and "M_children c1 \<noteq> []"
  shows "destroy_loop (Some c) par log = destroy_loop (Some c1) None (log @ rel)"
proof -
  define K where "K = (\<lambda>lg.
    case M_children c1 of
      [] \<Rightarrow> Some (Inl OutOfBounds)
    | Some l # rest \<Rightarrow>
        destroy_loop (Some l) (Some (Node (addr c1) (M_value c1) (None # rest))) lg
    | None # rest \<Rightarrow>
        if length (M_children c1) = 2
        then destroy_loop (hd rest) None (lg @ [Node (addr c1) (M_value c1) [None, None]])
        else destroy_loop
               (Some (Node (addr c1) (M_value c1) (remove_null_but_avoid_sole (M_children c1))))
               None lg)"
  have "destroy_loop (Some c) par log = K (log @ rel)"
    unfolding K_def
    by (subst destroy_loop.simps) (simp add: assms(1,2) split: list.splits option.splits)
  moreover have "destroy_loop (Some c1) None (log @ rel) = K (log @ rel)"
    unfolding K_def
    by (subst destroy_loop.simps)
       (simp add: assms(3) destroy_rotate_def split: list.splits option.splits)
  ultimately show ?thesis by simp
qed

lemma destroy_loop_drop_parent:
  assumes "cs \<noteq> []" and "pcs = [None] \<or> pcs = [None, None]"
  shows "destroy_loop (Some (Node a v cs)) (Some (Node pa pv pcs)) log =
         destroy_loop (Some (Node a v cs)) None (log @ [Node pa pv pcs])"
proof -
  have "destroy_rotate (Node a v cs) (Some (Node pa pv pcs)) = Inr (Node a v cs, [Node pa pv pcs])"
    using assms(2) by (auto simp: destroy_rotate_def)
  then show ?thesis using assms(1) by (intro destroy_loop_after_block) simp_all
qed

lemma destroy_loop_rotate:
  assumes "cs = [x] \<and> y = None \<or> cs = [x, y]"
  shows "destroy_loop (Some (Node a v cs)) (Some (Node pa pv [None, Some r])) log =
         destroy_loop (Some (Node a v [x, Some (Node pa pv [y, Some r])])) None log"
proof -
  have "destroy_rotate (Node a v cs) (Some (Node pa pv [None, Some r])) =
        Inr (Node a v [x, Some (Node pa pv [y, Some r])], [])"
    using assms by (auto simp: destroy_rotate_def avoid_sole_def Let_def)
  moreover have "M_children (Node a v cs) \<noteq> []" using assms by auto
  ultimately have "destroy_loop (Some (Node a v cs)) (Some (Node pa pv [None, Some r])) log =
         destroy_loop (Some (Node a v [x, Some (Node pa pv [y, Some r])])) None (log @ [])"
    by (intro destroy_loop_after_block) simp_all
  then show ?thesis by simp
qed

lemma binary_slot_cases:
  assumes "length cs \<le> 2" and "cs \<noteq> []"
  obtains x where "cs = [x]" | x y where "cs = [x, y]"
  using assms by (cases cs; cases "tl cs"; cases "tl (tl cs)") auto

lemma preorder_slots_Cons: "preorder_slots (y # cs) = nodes y @ preorder_slots cs"
  by (cases y) (simp_all add: nodes_def)

lemma binary_slots_Cons:
  "binary_slots (y # cs) = ((case y of None \<Rightarrow> True | Some t \<Rightarrow> binary t) \<and> binary_slots cs)"
  by (cases y) simp_all

lemma nodes_Some: "nodes (Some (Node a v cs)) = Node a v cs # preorder_slots cs"
  by (simp add: nodes_def)

lemma destroy_loop_next_no_parent:
  assumes inv: "destroy_inv (Some (Node a v cs)) None" and ne: "cs \<noteq> []"
  shows "\<exists>cur' par' rel.
           (\<forall>log. destroy_loop (Some (Node a v cs)) None log = destroy_loop cur' par' (log @ rel)) \<and>
           destroy_inv cur' par' \<and>
           (length (nodes cur') + length (nodes par') + length rel = length (nodes (Some (Node a v cs)))) \<and>
           (rel = [] \<longrightarrow> length (nodes cur') < length (nodes (Some (Node a v cs))) \<or>
               length (nodes cur') = length (nodes (Some (Node a v cs))) \<and>
               (case cur' of None \<Rightarrow> 0 | Some c' \<Rightarrow> length (M_children c')) < length cs) \<and>
           mset (map ident rel) + mset (map ident (nodes cur' @ nodes par')) =
             mset (map ident (nodes (Some (Node a v cs))))"
proof -
  have bc: "length cs \<le> 2" "binary_slots cs" using inv by (simp_all add: destroy_inv_def)
  obtain x rest where cs: "cs = x # rest" using ne by (cases cs) auto
  show ?thesis
  proof (cases x)
    case (Some l)
    let ?cur = "Some l" and ?par = "Some (Node a v (None # rest))"
    have "\<forall>log. destroy_loop (Some (Node a v cs)) None log = destroy_loop ?cur ?par (log @ [])"
      by (simp add: cs Some destroy_loop_left)
    moreover have "destroy_inv ?cur ?par"
      using bc by (simp add: destroy_inv_def cs Some)
    moreover have "length (nodes ?cur) + length (nodes ?par) + length ([] :: 'a tree list) =
                   length (nodes (Some (Node a v cs)))"
      by (simp add: nodes_Some cs Some; simp add: nodes_def)
    moreover have "length (nodes ?cur) < length (nodes (Some (Node a v cs)))"
      by (simp add: nodes_Some cs Some; simp add: nodes_def)
    moreover have "mset (map ident []) + mset (map ident (nodes ?cur @ nodes ?par)) =
             mset (map ident (nodes (Some (Node a v cs))))"
      by (simp add: nodes_Some cs Some; simp add: nodes_def ident_def)
    ultimately show ?thesis by blast
  next
    case None
    show ?thesis
    proof (cases rest)
      case Nil
      let ?cur = "Some (Node a v [])" and ?par = "None :: 'a tree option"
      have "\<forall>log. destroy_loop (Some (Node a v cs)) None log = destroy_loop ?cur ?par (log @ [])"
        by (simp add: cs None Nil destroy_loop_sole_null)
      moreover have "destroy_inv ?cur ?par"
        by (simp add: destroy_inv_def)
      moreover have "length (nodes ?cur) + length (nodes ?par) + length ([] :: 'a tree list) =
                     length (nodes (Some (Node a v cs)))"
        by (simp add: nodes_def cs None Nil)
      moreover have "length (nodes ?cur) = length (nodes (Some (Node a v cs))) \<and>
               (case ?cur of None \<Rightarrow> 0 | Some c' \<Rightarrow> length (M_children c')) < length cs"
        by (simp add: nodes_def cs None Nil)
      moreover have "mset (map ident []) + mset (map ident (nodes ?cur @ nodes ?par)) =
               mset (map ident (nodes (Some (Node a v cs))))"
        by (simp add: nodes_def cs None Nil ident_def)
      ultimately show ?thesis by blast
    next
      case (Cons y rest')
      then have r: "rest = [y]" using bc(1) by (simp add: cs)
      let ?rel = "[Node a v [None, None]]"
      have "\<forall>log. destroy_loop (Some (Node a v cs)) None log = destroy_loop y None (log @ ?rel)"
        by (simp add: cs None r destroy_loop_right)
      moreover have "destroy_inv y None"
        using bc by (auto simp: destroy_inv_def cs None r binary_slots_Cons split: option.splits)
      moreover have "length (nodes y) + length (nodes None) + length ?rel =
                     length (nodes (Some (Node a v cs)))"
        by (simp add: nodes_Some cs None r preorder_slots_Cons; simp add: nodes_def)
      moreover have "mset (map ident ?rel) + mset (map ident (nodes y @ nodes None)) =
               mset (map ident (nodes (Some (Node a v cs))))"
        by (simp add: nodes_Some cs None r preorder_slots_Cons; simp add: nodes_def ident_def)
      ultimately show ?thesis by blast
    qed
  qed
qed

lemma destroy_loop_next_parent:
  assumes inv: "destroy_inv (Some (Node a v cs)) (Some (Node pa pv pcs))" and ne: "cs \<noteq> []"
  shows "\<exists>cur' par' rel.
           (\<forall>log. destroy_loop (Some (Node a v cs)) (Some (Node pa pv pcs)) log =
                  destroy_loop cur' par' (log @ rel)) \<and>
           destroy_inv cur' par' \<and>
           (length (nodes cur') + length (nodes par') + length rel =
              length (nodes (Some (Node a v cs))) + length (nodes (Some (Node pa pv pcs)))) \<and>
           (rel = [] \<longrightarrow> length (nodes cur') < length (nodes (Some (Node a v cs)))) \<and>
           mset (map ident rel) + mset (map ident (nodes cur' @ nodes par')) =
             mset (map ident (nodes (Some (Node a v cs)) @ nodes (Some (Node pa pv pcs))))"
proof -
  have bc: "length cs \<le> 2" "binary_slots cs"
    and bp: "length pcs \<le> 2" "binary_slots pcs" "pcs \<noteq> []" "hd pcs = None"
    using inv by (simp_all add: destroy_inv_def)
  from bp(1,3) have "pcs = [None] \<or> pcs = [None, None] \<or> (\<exists>r. pcs = [None, Some r])"
    using bp(4) by (cases rule: binary_slot_cases) auto
  then consider (drop) "pcs = [None] \<or> pcs = [None, None]" | (rot) r where "pcs = [None, Some r]"
    by blast
  then show ?thesis
  proof cases
    case drop
    have inv0: "destroy_inv (Some (Node a v cs)) None"
      using inv by (simp add: destroy_inv_def)
    from destroy_loop_next_no_parent[OF inv0 ne] obtain cur' par' rel where
      eq: "\<forall>log. destroy_loop (Some (Node a v cs)) None log = destroy_loop cur' par' (log @ rel)" and
      inv': "destroy_inv cur' par'" and
      len: "length (nodes cur') + length (nodes par') + length rel = length (nodes (Some (Node a v cs)))" and
      ms: "mset (map ident rel) + mset (map ident (nodes cur' @ nodes par')) =
             mset (map ident (nodes (Some (Node a v cs))))"
      by blast
    have pn: "nodes (Some (Node pa pv pcs)) = [Node pa pv pcs]"
      using drop by (auto simp: nodes_def)
    have "\<forall>log. destroy_loop (Some (Node a v cs)) (Some (Node pa pv pcs)) log =
                destroy_loop cur' par' (log @ (Node pa pv pcs # rel))"
      using eq by (simp add: destroy_loop_drop_parent[OF ne drop])
    moreover have "length (nodes cur') + length (nodes par') + length (Node pa pv pcs # rel) =
              length (nodes (Some (Node a v cs))) + length (nodes (Some (Node pa pv pcs)))"
      using len by (simp add: pn)
    moreover have "mset (map ident (Node pa pv pcs # rel)) + mset (map ident (nodes cur' @ nodes par')) =
             mset (map ident (nodes (Some (Node a v cs)) @ nodes (Some (Node pa pv pcs))))"
      using ms by (simp add: pn)
    ultimately show ?thesis using inv' by blast
  next
    case (rot r)
    from bc(1) ne obtain x y where shape: "cs = [x] \<and> y = None \<or> cs = [x, y]"
      by (cases rule: binary_slot_cases) auto
    note step = destroy_loop_rotate[OF shape, of a v pa pv r]
    have by': "case y of None \<Rightarrow> True | Some t \<Rightarrow> binary t"
      and bx: "case x of None \<Rightarrow> True | Some t \<Rightarrow> binary t"
      using shape bc(2) by (auto simp: binary_slots_Cons)
    have br: "binary r" using bp(2) by (simp add: rot)
    have ncs: "preorder_slots cs = nodes x @ nodes y"
      using shape by (auto simp: preorder_slots_Cons nodes_def)
    let ?p' = "Node pa pv [y, Some r]"
    show ?thesis
    proof (cases x)
      case (Some l)
      let ?cur = "Some l" and ?par = "Some (Node a v [None, Some ?p'])"
      have "\<forall>log. destroy_loop (Some (Node a v cs)) (Some (Node pa pv pcs)) log =
                  destroy_loop ?cur ?par (log @ [])"
        by (simp add: rot step Some destroy_loop_left)
      moreover have "destroy_inv ?cur ?par"
        using bx by' br by (simp add: destroy_inv_def Some binary_slots_Cons)
      moreover have "length (nodes ?cur) + length (nodes ?par) + length ([] :: 'a tree list) =
              length (nodes (Some (Node a v cs))) + length (nodes (Some (Node pa pv pcs)))"
        by (simp add: nodes_Some ncs rot preorder_slots_Cons Some; simp add: nodes_def)
      moreover have "length (nodes ?cur) < length (nodes (Some (Node a v cs)))"
        by (simp add: nodes_Some ncs Some; simp add: nodes_def)
      moreover have "mset (map ident []) + mset (map ident (nodes ?cur @ nodes ?par)) =
             mset (map ident (nodes (Some (Node a v cs)) @ nodes (Some (Node pa pv pcs))))"
        by (simp add: nodes_Some ncs rot preorder_slots_Cons Some; simp add: nodes_def ident_def)
      ultimately show ?thesis by blast
    next
      case None
      let ?cur = "Some ?p'" and ?par = "None :: 'a tree option" and ?rel = "[Node a v [None, None]]"
      have "\<forall>log. destroy_loop (Some (Node a v cs)) (Some (Node pa pv pcs)) log =
                  destroy_loop ?cur ?par (log @ ?rel)"
        by (simp add: rot step None destroy_loop_right)
      moreover have "destroy_inv ?cur ?par"
        using by' br by (simp add: destroy_inv_def binary_slots_Cons)
      moreover have "length (nodes ?cur) + length (nodes ?par) + length ?rel =
              length (nodes (Some (Node a v cs))) + length (nodes (Some (Node pa pv pcs)))"
        by (simp add: nodes_Some ncs rot preorder_slots_Cons None; simp add: nodes_def)
      moreover have "mset (map ident ?rel) + mset (map ident (nodes ?cur @ nodes ?par)) =
             mset (map ident (nodes (Some (Node a v cs)) @ nodes (Some (Node pa pv pcs))))"
        by (simp add: nodes_Some ncs rot preorder_slots_Cons None; simp add: nodes_def ident_def)
      ultimately show ?thesis by blast
    qed
  qed
qed

lemma destroy_loop_binary:
  assumes "destroy_inv cur par"
  shows "\<exists>L. destroy_loop cur par log = Some (Inr (log @ L)) \<and>
           mset (map ident L) = mset (map ident (nodes cur @ nodes par))"
  using wf_measures[of destroy_measures] assms
proof (induction "(cur, par)" arbitrary: cur par log rule: wf_induct_rule)
  case less
  note inv = less.prems
  have next_state:
    "\<exists>L. destroy_loop cur par log = Some (Inr (log @ L)) \<and>
         mset (map ident L) = mset (map ident (nodes cur @ nodes par))"
    if eq: "\<forall>log. destroy_loop cur par log = destroy_loop cur' par' (log @ rel)"
      and inv': "destroy_inv cur' par'"
      and dec: "((cur', par'), (cur, par)) \<in> measures destroy_measures"
      and ms: "mset (map ident rel) + mset (map ident (nodes cur' @ nodes par')) =
               mset (map ident (nodes cur @ nodes par))"
    for cur' par' rel
  proof -
    from less.hyps[OF dec inv', of "log @ rel"] obtain L where
      run: "destroy_loop cur' par' (log @ rel) = Some (Inr ((log @ rel) @ L))" and
      msl: "mset (map ident L) = mset (map ident (nodes cur' @ nodes par'))"
      by blast
    have "destroy_loop cur par log = Some (Inr (log @ (rel @ L)))"
      using eq run by simp
    moreover have "mset (map ident (rel @ L)) = mset (map ident (nodes cur @ nodes par))"
      using ms msl by simp
    ultimately show ?thesis by blast
  qed
  show ?case
  proof (cases cur)
    case None
    then have "par = None" using inv by (simp add: destroy_inv_def)
    then show ?thesis using None by (simp add: destroy_loop_exit nodes_def)
  next
    case (Some c)
    obtain a v cs where c: "c = Node a v cs" by (cases c)
    show ?thesis
    proof (cases "cs = []")
      case True
      show ?thesis
      proof (rule next_state)
        show "\<forall>log. destroy_loop cur par log = destroy_loop par None (log @ [Node a v []])"
          by (simp add: Some c True destroy_loop_leaf)
        show "destroy_inv par None"
          using inv by (auto simp: destroy_inv_def split: option.splits)
        show "((par, None), (cur, par)) \<in> measures destroy_measures"
          by (simp add: destroy_measures_def nodes_def Some c True)
        show "mset (map ident [Node a v []]) + mset (map ident (nodes par @ nodes None)) =
              mset (map ident (nodes cur @ nodes par))"
          by (simp add: nodes_def Some c True)
      qed
    next
      case False
      show ?thesis
      proof (cases par)
        case None
        from destroy_loop_next_no_parent[OF inv[unfolded Some c None] False]
        obtain cur' par' rel where
          eq: "\<forall>log. destroy_loop (Some (Node a v cs)) None log = destroy_loop cur' par' (log @ rel)" and
          inv': "destroy_inv cur' par'" and
          len: "length (nodes cur') + length (nodes par') + length rel =
                length (nodes (Some (Node a v cs)))" and
          dec: "rel = [] \<longrightarrow> length (nodes cur') < length (nodes (Some (Node a v cs))) \<or>
                 length (nodes cur') = length (nodes (Some (Node a v cs))) \<and>
                 (case cur' of None \<Rightarrow> 0 | Some c' \<Rightarrow> length (M_children c')) < length cs" and
          ms: "mset (map ident rel) + mset (map ident (nodes cur' @ nodes par')) =
               mset (map ident (nodes (Some (Node a v cs))))"
          by blast
        show ?thesis
        proof (rule next_state)
          show "\<forall>log. destroy_loop cur par log = destroy_loop cur' par' (log @ rel)"
            using eq by (simp add: Some c None)
          show "destroy_inv cur' par'" by (rule inv')
          show "((cur', par'), (cur, par)) \<in> measures destroy_measures"
          proof (cases "rel = []")
            case True
            with len dec show ?thesis
              by (auto simp: destroy_measures_def Some c None nodes_def[of None])
          next
            case False
            with len have "length (nodes cur') + length (nodes par') <
                           length (nodes (Some (Node a v cs)))"
              by (cases rel) simp_all
            then show ?thesis
              by (simp add: destroy_measures_def Some c None nodes_def[of None])
          qed
          show "mset (map ident rel) + mset (map ident (nodes cur' @ nodes par')) =
                mset (map ident (nodes cur @ nodes par))"
            using ms by (simp add: Some c None nodes_def[of None])
        qed
      next
        case (Some p)
        obtain pa pv pcs where p: "p = Node pa pv pcs" by (cases p)
        from destroy_loop_next_parent[OF inv[unfolded \<open>cur = Some c\<close> c Some p] False]
        obtain cur' par' rel where
          eq: "\<forall>log. destroy_loop (Some (Node a v cs)) (Some (Node pa pv pcs)) log =
                     destroy_loop cur' par' (log @ rel)" and
          inv': "destroy_inv cur' par'" and
          len: "length (nodes cur') + length (nodes par') + length rel =
                length (nodes (Some (Node a v cs))) + length (nodes (Some (Node pa pv pcs)))" and
          dec: "rel = [] \<longrightarrow> length (nodes cur') < length (nodes (Some (Node a v cs)))" and
          ms: "mset (map ident rel) + mset (map ident (nodes cur' @ nodes par')) =
               mset (map ident (nodes (Some (Node a v cs)) @ nodes (Some (Node pa pv pcs))))"
          by blast
        show ?thesis
        proof (rule next_state)
          show "\<forall>log. destroy_loop cur par log = destroy_loop cur' par' (log @ rel)"
            using eq by (simp add: \<open>cur = Some c\<close> c Some p)
          show "destroy_inv cur' par'" by (rule inv')
          show "((cur', par'), (cur, par)) \<in> measures destroy_measures"
          proof (cases "rel = []")
            case True
            with len dec show ?thesis
              by (auto simp: destroy_measures_def \<open>cur = Some c\<close> c Some p)
          next
            case False
            with len have "length (nodes cur') + length (nodes par') <
                length (nodes (Some (Node a v cs))) + length (nodes (Some (Node pa pv pcs)))"
              by (cases rel) simp_all
            then show ?thesis
              by (simp add: destroy_measures_def \<open>cur = Some c\<close> c Some p)
          qed
          show "mset (map ident rel) + mset (map ident (nodes cur' @ nodes par')) =
                mset (map ident (nodes cur @ nodes par))"
            using ms by (simp add: \<open>cur = Some c\<close> c Some p)
        qed
      qed
    qed
  qed
qed

text \<open>
  Claim C3. For every tree in which every node has at most two children, the deprecated
  \<open>destroy(ptr)\<close> returns, leaves \<open>ptr\<close> null and has released the root and every
  descendant, each once: the same final state as \<open>remove_children()\<close> on the root
  followed by dropping the root handle, which releases the same nodes.
\<close>

theorem destroy_binary:
  assumes "binary t"
  shows "\<exists>log. destroy (Some t) = Some (Inr (None, log)) \<and>
           mset (map ident log) = mset (map ident (preorder t)) \<and>
           (\<exists>t' log2. remove_children t = Some (Inr (t', log2)) \<and>
              mset (map ident (log2 @ released (Some t'))) = mset (map ident log))"
proof -
  have "destroy_inv (Some t) None" using assms by (simp add: destroy_inv_def)
  from destroy_loop_binary[OF this, of "[]"] obtain L where
    run: "destroy_loop (Some t) None [] = Some (Inr L)" and
    ms: "mset (map ident L) = mset (map ident (preorder t))"
    by (auto simp: nodes_def)
  from remove_children_result[of t] obtain log2 where
    rc: "remove_children t = Some (Inr (Node (addr t) (M_value t) [], log2))" and
    i2: "map ident log2 = rev (map ident (descendants t))"
    by blast
  have "mset (map ident (log2 @ released (Some (Node (addr t) (M_value t) [])))) =
        mset (map ident (descendants t)) + {#ident t#}"
    using arg_cong[OF i2, of mset] by (simp add: ident_def)
  also have "\<dots> = mset (map ident (preorder t))"
    by (cases t) (simp add: descendants_def)
  finally have "mset (map ident (log2 @ released (Some (Node (addr t) (M_value t) [])))) =
        mset (map ident L)"
    using ms by simp
  with run ms rc show ?thesis by (auto simp: destroy_def)
qed

theorem destroy_binary_witness:
  "binary tree_2_1_3 \<and>
   (\<exists>log. destroy (Some tree_2_1_3) = Some (Inr (None, log)) \<and>
      mset (map ident log) = mset (map ident (preorder tree_2_1_3)) \<and>
      (\<exists>t' log2. remove_children tree_2_1_3 = Some (Inr (t', log2)) \<and>
         mset (map ident (log2 @ released (Some t'))) = mset (map ident log)))"
proof -
  have b: "binary tree_2_1_3" by (simp add: tree_2_1_3_def)
  from destroy_binary[OF b] b show ?thesis by blast
qed

section \<open>Equality of iterators\<close>

text \<open>
  For each kind, the default-constructed iterator is exhausted and compares equal, in
  both directions, to every exhausted iterator.
\<close>

lemma end_equals_exhausted:
  "bfs_empty bfs_end \<and> (bfs_empty x \<longrightarrow> bfs_eq bfs_end x \<and> bfs_eq x bfs_end)"
  "dfs_empty dfs_end \<and> (dfs_empty y \<longrightarrow> dfs_eq dfs_end y \<and> dfs_eq y dfs_end)"
  "ino_empty ino_end \<and> (ino_empty z \<longrightarrow> ino_eq ino_end z \<and> ino_eq z ino_end)"
  by (simp_all add: bfs_empty_def bfs_end_def bfs_eq_def vec_end_def
        dfs_empty_def dfs_end_def dfs_eq_def ino_empty_def ino_end_def ino_eq_def)

text \<open>
  Depth-first and in-order iterators compare the nodes they point to: they are equal if
  and only if both are exhausted or both point to the node at one address.
\<close>

lemma dfs_eq_iff:
  "dfs_eq a b \<longleftrightarrow>
     (dfs_empty a \<and> dfs_empty b) \<or>
     (\<exists>x y. dfs_current a = Some x \<and> dfs_current b = Some y \<and> addr x = addr y)"
  by (cases "dfs_current a"; cases "dfs_current b") (simp_all add: dfs_eq_def dfs_empty_def)

lemma ino_eq_iff:
  "ino_eq a b \<longleftrightarrow>
     (ino_empty a \<and> ino_empty b) \<or>
     (\<exists>x y. ino_current a = Some x \<and> ino_current b = Some y \<and> addr x = addr y)"
  by (cases "ino_current a"; cases "ino_current b") (simp_all add: ino_eq_def ino_empty_def)

text \<open>
  Within one traversal of a tree whose nodes have distinct addresses, this is the
  identical position: after \<open>k\<close> increments from \<open>begin()\<close> the iterator has the nodes of
  the order from the \<open>k\<close>-th on still to yield, so two such iterators that point to one
  node have made the same number of increments and are the same.
\<close>

lemma drop_eq_ConsD:
  assumes "drop i xs = x # rest"
  shows "i < length xs" and "xs ! i = x"
proof -
  show lt: "i < length xs" using assms by (cases "i < length xs") simp_all
  from hd_drop_conv_nth[OF lt] assms show "xs ! i = x" by simp
qed

lemma dfs_incr_pending:
  assumes "dfs_incr it = Inr it'"
  shows "dfs_pending it \<noteq> [] \<and> dfs_pending it' = tl (dfs_pending it)"
proof -
  from assms obtain x where x: "dfs_current it = Some x"
    by (cases "dfs_current it") (simp_all add: dfs_incr_def)
  define st where "st = (if M_children x \<noteq> [] then M_children x # dfs_stack it else dfs_stack it)"
  from assms obtain c st' where loop: "dfs_loop st = Inr (c, st')"
    and it': "it' = \<lparr>dfs_current = c, dfs_stack = st'\<rparr>"
    by (auto simp: dfs_incr_def x st_def Let_def split: sum.splits if_splits)
  have "stack_preorder st = preorder_slots (M_children x) @ stack_preorder (dfs_stack it)"
    by (auto simp: st_def stack_preorder_def)
  with dfs_loop_preorder[OF loop]
  have "dfs_pending it' = preorder_slots (M_children x) @ stack_preorder (dfs_stack it)"
    by (cases c) (simp_all add: dfs_pending_def it')
  then show ?thesis by (simp add: dfs_pending_def x preorder_children[of x])
qed

lemma dfs_advance_pending:
  "dfs_advance k (dfs_begin t) = Inr it \<Longrightarrow>
   k \<le> length (preorder t) \<and> dfs_pending it = drop k (preorder t)"
proof (induction k arbitrary: it)
  case 0
  then show ?case by (auto simp: dfs_begin_def dfs_pending_def stack_preorder_def)
next
  case (Suc k)
  then obtain it0 where a: "dfs_advance k (dfs_begin t) = Inr it0" and i: "dfs_incr it0 = Inr it"
    by (auto split: sum.splits)
  from Suc.IH[OF a] have p0: "dfs_pending it0 = drop k (preorder t)" by simp
  from dfs_incr_pending[OF i] have ne: "dfs_pending it0 \<noteq> []"
    and p: "dfs_pending it = tl (dfs_pending it0)" by simp_all
  from ne p0 have "k < length (preorder t)" by (cases "k < length (preorder t)") simp_all
  moreover have "dfs_pending it = drop (Suc k) (preorder t)"
    by (simp add: p p0 drop_Suc tl_drop)
  ultimately show ?case by simp
qed

lemma dfs_eq_position:
  assumes d: "distinct (map addr (preorder t))"
    and a: "dfs_advance i (dfs_begin t) = Inr a" and b: "dfs_advance j (dfs_begin t) = Inr b"
  shows "dfs_eq a b \<longleftrightarrow> (dfs_empty a \<and> dfs_empty b) \<or> a = b"
proof
  assume "(dfs_empty a \<and> dfs_empty b) \<or> a = b"
  then show "dfs_eq a b" by (auto simp: dfs_eq_def dfs_empty_def)
next
  assume "dfs_eq a b"
  then consider "dfs_empty a \<and> dfs_empty b"
    | x y where "dfs_current a = Some x" "dfs_current b = Some y" "addr x = addr y"
    using dfs_eq_iff by blast
  then show "(dfs_empty a \<and> dfs_empty b) \<or> a = b"
  proof cases
    case 1
    then show ?thesis by simp
  next
    case 2
    from dfs_advance_pending[OF a] 2(1)
    have "drop i (preorder t) = x # preorder_slots (M_children x) @ stack_preorder (dfs_stack a)"
      by (simp add: dfs_pending_def preorder_children[of x])
    then have i: "i < length (preorder t)" "preorder t ! i = x"
      by (simp_all add: drop_eq_ConsD)
    from dfs_advance_pending[OF b] 2(2)
    have "drop j (preorder t) = y # preorder_slots (M_children y) @ stack_preorder (dfs_stack b)"
      by (simp add: dfs_pending_def preorder_children[of y])
    then have j: "j < length (preorder t)" "preorder t ! j = y"
      by (simp_all add: drop_eq_ConsD)
    have "i = j"
      using nth_eq_iff_index_eq[OF d, of i j] i j 2(3) by simp
    then show ?thesis using a b by simp
  qed
qed

lemma ino_incr_pending:
  assumes "ino_incr it = Inr it'"
  shows "ino_pending it \<noteq> [] \<and> ino_pending it' = tl (ino_pending it)"
proof -
  from assms obtain x where x: "ino_current it = Some x"
    by (cases "ino_current it") (simp_all add: ino_incr_def)
  obtain c st' where loop: "ino_loop (ino_stack it) = (c, st')"
    by (cases "ino_loop (ino_stack it)")
  have it': "it' = \<lparr>ino_stack = st', ino_current = c\<rparr>"
    using assms loop by (auto simp: ino_incr_def x)
  from ino_loop_inorder[OF loop] have "ino_pending it' = stack_inorder (ino_stack it)"
    by (cases c) (simp_all add: ino_pending_def it')
  then show ?thesis by (simp add: ino_pending_def x)
qed

lemma ino_advance_pending:
  "ino_advance k (ino_begin t) = Inr it \<Longrightarrow>
   k \<le> length (inorder t) \<and> ino_pending it = drop k (inorder t)"
proof (induction k arbitrary: it)
  case 0
  obtain c st where f: "find_leftmost_child [] t = (c, st)"
    by (cases "find_leftmost_child [] t")
  from find_leftmost_child_inorder[OF f] have "inorder t = c # stack_inorder st"
    by (simp add: stack_inorder_def)
  with 0 show ?case by (auto simp: ino_begin_def f ino_pending_def)
next
  case (Suc k)
  then obtain it0 where a: "ino_advance k (ino_begin t) = Inr it0" and i: "ino_incr it0 = Inr it"
    by (auto split: sum.splits)
  from Suc.IH[OF a] have p0: "ino_pending it0 = drop k (inorder t)" by simp
  from ino_incr_pending[OF i] have ne: "ino_pending it0 \<noteq> []"
    and p: "ino_pending it = tl (ino_pending it0)" by simp_all
  from ne p0 have "k < length (inorder t)" by (cases "k < length (inorder t)") simp_all
  moreover have "ino_pending it = drop (Suc k) (inorder t)"
    by (simp add: p p0 drop_Suc tl_drop)
  ultimately show ?case by simp
qed

lemma ino_eq_position:
  assumes d: "distinct (map addr (inorder t))"
    and a: "ino_advance i (ino_begin t) = Inr a" and b: "ino_advance j (ino_begin t) = Inr b"
  shows "ino_eq a b \<longleftrightarrow> (ino_empty a \<and> ino_empty b) \<or> a = b"
proof
  assume "(ino_empty a \<and> ino_empty b) \<or> a = b"
  then show "ino_eq a b" by (auto simp: ino_eq_def ino_empty_def)
next
  assume "ino_eq a b"
  then consider "ino_empty a \<and> ino_empty b"
    | x y where "ino_current a = Some x" "ino_current b = Some y" "addr x = addr y"
    using ino_eq_iff by blast
  then show "(ino_empty a \<and> ino_empty b) \<or> a = b"
  proof cases
    case 1
    then show ?thesis by simp
  next
    case 2
    from ino_advance_pending[OF a] 2(1)
    have "drop i (inorder t) = x # stack_inorder (ino_stack a)"
      by (simp add: ino_pending_def)
    then have i: "i < length (inorder t)" "inorder t ! i = x"
      by (simp_all add: drop_eq_ConsD)
    from ino_advance_pending[OF b] 2(2)
    have "drop j (inorder t) = y # stack_inorder (ino_stack b)"
      by (simp add: ino_pending_def)
    then have j: "j < length (inorder t)" "inorder t ! j = y"
      by (simp_all add: drop_eq_ConsD)
    have "i = j"
      using nth_eq_iff_index_eq[OF d, of i j] i j 2(3) by simp
    then show ?thesis using a b by simp
  qed
qed

text \<open>
  Breadth-first iterators compare \<open>_M_current\<close>, a position in the buffer of the own
  \<open>_M_this_level\<close>. Two iterators constructed from one root hold the same level, the
  root, in two buffers: they are equal only if the two buffers are one.
\<close>

lemma bfs_begin_eq_iff: "bfs_eq (bfs_begin b1 t1) (bfs_begin b2 t2) \<longleftrightarrow> b1 = b2"
  by (simp add: bfs_eq_def bfs_begin_def bfs_empty_def vec_begin_def vec_end_def)

text \<open>
  Claim C7. For each of the three kinds a default-constructed iterator compares equal to
  any exhausted one, and two iterators compare equal if and only if both are exhausted
  or both reference the identical traversal position. The first part holds
  (\<open>end_equals_exhausted\<close>), and so does the second for depth-first and in-order
  iterators (\<open>dfs_eq_position\<close>, \<open>ino_eq_position\<close>). Breadth-first iterators break it:
  two iterators that \<open>begin()\<close> returns for the tree \<open>2(1, 3)\<close>, their level vectors in
  the buffers \<open>1\<close> and \<open>2\<close>, are not exhausted and are both at the root, and
  \<open>operator==\<close> is false; for the other two kinds it is true.
\<close>

theorem bfs_begin_twice_unequal:
  "bfs_deref (bfs_begin 1 tree_2_1_3) = Inr tree_2_1_3 \<and>
   bfs_deref (bfs_begin 2 tree_2_1_3) = Inr tree_2_1_3 \<and>
   bfs_this_level (bfs_begin 1 tree_2_1_3) = (Some 1, [tree_2_1_3]) \<and>
   bfs_this_level (bfs_begin 2 tree_2_1_3) = (Some 2, [tree_2_1_3]) \<and>
   \<not> bfs_empty (bfs_begin 1 tree_2_1_3) \<and>
   \<not> bfs_empty (bfs_begin 2 tree_2_1_3) \<and>
   \<not> bfs_eq (bfs_begin 1 tree_2_1_3) (bfs_begin 2 tree_2_1_3) \<and>
   dfs_eq (dfs_begin tree_2_1_3) (dfs_begin tree_2_1_3) \<and>
   ino_eq (ino_begin tree_2_1_3) (ino_begin tree_2_1_3)"
  by (simp add: bfs_deref_def bfs_begin_def bfs_empty_def bfs_eq_def vec_begin_def vec_end_def
        dfs_eq_def ino_eq_def)

end
